theory Spec2Isabelle
  imports Complex_Main "HOL-Library.AList"
begin

section \<open>The region balance planner of \<open>hbase/swap_regions.py\<close>\<close>

text \<open>
  A Python \<open>dict\<close> keeps its keys in insertion order, and the planner depends on that
  order (servers are scanned in key order, cold tables in key order), so a dict is an
  association list. Reading is \<open>map_of\<close>; writing is \<open>AList.update\<close>, which keeps
  the position of a key that is present and appends a new key at the end, as Python does.

  Region counts are Python integers (\<open>int\<close>). The averages, weights and scores are
  Python floats, rounded as described in the subsection on floats below.
  The functions print progress lines, which are not modelled.
\<close>

type_synonym server = string
type_synonym table = string
type_synonym region = string

type_synonym counts = "(table \<times> int) list"
type_synonym server_table_count = "(server \<times> counts) list"
type_synonym table_regions = "(table \<times> region list) list"
type_synonym server_table_regions = "(server \<times> table_regions) list"

text \<open>A swap as the planner records it:
  \<open>(hot_region, cold_region, cold_table, donor_server, receiver_server)\<close>.\<close>

type_synonym swap = "region \<times> region \<times> table \<times> server \<times> server"

datatype py_error = KeyError | ValueError | TypeError | OSError

subsection \<open>Dictionary and list primitives\<close>

text \<open>\<open>d.get(k, default)\<close>\<close>

definition dict_get :: "('k \<times> 'v) list \<Rightarrow> 'k \<Rightarrow> 'v \<Rightarrow> 'v" where
  "dict_get d k dflt = (case map_of d k of None \<Rightarrow> dflt | Some v \<Rightarrow> v)"

text \<open>\<open>d[k]\<close>, which raises \<open>KeyError\<close> on a missing key\<close>

definition dict_getitem :: "('k \<times> 'v) list \<Rightarrow> 'k \<Rightarrow> py_error + 'v" where
  "dict_getitem d k = (case map_of d k of None \<Rightarrow> Inl KeyError | Some v \<Rightarrow> Inr v)"

text \<open>\<open>xs.remove(x)\<close>, which raises \<open>ValueError\<close> when \<open>x\<close> is not in the list\<close>

definition list_remove :: "'a list \<Rightarrow> 'a \<Rightarrow> py_error + 'a list" where
  "list_remove xs x = (if x \<in> set xs then Inr (remove1 x xs) else Inl ValueError)"

subsection \<open>Python floats\<close>

text \<open>
  A Python \<open>float\<close> is an IEEE 754 binary64 number. A finite float is modelled by the
  rational number it denotes, and every operation of the source that produces a float
  rounds its exact result to the nearest binary64 number, ties going to the even
  significand, as the hardware and CPython do: the true division of two integers, the
  conversion of an integer operand of a mixed operation, and the addition and the
  subtraction of two floats. Comparisons (float with float, integer with float) and the
  negation in the sort keys are exact in Python and are exact here.

  \<open>floor_log2 n\<close> is \<open>\<lfloor>log\<^sub>2 n\<rfloor>\<close> for \<open>n \<ge> 1\<close>, and \<open>binary_exponent x\<close> is the \<open>e\<close> with
  \<open>2 ^ e \<le> x < 2 ^ (e + 1)\<close> for \<open>x > 0\<close>. A binary64 number with exponent \<open>e\<close> is a
  multiple of \<open>2 ^ (e - 52)\<close>; below \<open>2 ^ (-1022)\<close> the spacing stays at
  \<open>2 ^ (-1074)\<close> (subnormal numbers). The one thing left out is overflow: a result of
  magnitude \<open>2 ^ 1024\<close> or more is \<open>inf\<close> or an \<open>OverflowError\<close> in Python and is a
  rounded rational here.
\<close>

fun floor_log2 :: "nat \<Rightarrow> nat" where
  "floor_log2 n = (if n < 2 then 0 else Suc (floor_log2 (n div 2)))"

declare floor_log2.simps [simp del]

definition pow2 :: "int \<Rightarrow> rat" where
  "pow2 k = (if 0 \<le> k then 2 ^ nat k else 1 / 2 ^ nat (- k))"

definition binary_exponent :: "rat \<Rightarrow> int" where
  "binary_exponent x =
     (if 1 \<le> x then int (floor_log2 (nat \<lfloor>x\<rfloor>))
      else - int (Suc (floor_log2 (nat (\<lceil>1 / x\<rceil> - 1)))))"

definition round_half_even :: "rat \<Rightarrow> int" where
  "round_half_even x =
     (let f = \<lfloor>x\<rfloor>; d = x - of_int f
      in if d < 1/2 then f else if 1/2 < d then f + 1 else if even f then f else f + 1)"

definition float_round :: "rat \<Rightarrow> rat" where
  "float_round x =
     (if x = 0 then 0
      else (let e = max (binary_exponent \<bar>x\<bar>) (- 1022);
                ulp = pow2 (e - 52)
            in sgn x * of_int (round_half_even (\<bar>x\<bar> / ulp)) * ulp))"

text \<open>\<open>float(i)\<close>, the conversion applied to an integer operand of a mixed operation\<close>

definition py_float :: "int \<Rightarrow> rat" where
  "py_float i = float_round (of_int i)"

text \<open>\<open>a / b\<close> on two integers (\<open>b\<close> not zero), which CPython rounds once\<close>

definition truediv :: "int \<Rightarrow> int \<Rightarrow> rat" where
  "truediv a b = float_round (of_int a / of_int b)"

text \<open>\<open>x + y\<close> and \<open>x - y\<close> on two floats\<close>

definition float_add :: "rat \<Rightarrow> rat \<Rightarrow> rat" where
  "float_add x y = float_round (x + y)"

definition float_sub :: "rat \<Rightarrow> rat \<Rightarrow> rat" where
  "float_sub x y = float_round (x - y)"

subsection \<open>\<open>compute_table_avg\<close> and the precomputed averages\<close>

text \<open>\<open>sum(counts.get(table, 0) for counts in server_table_count.values())\<close>\<close>

definition table_total :: "table \<Rightarrow> server_table_count \<Rightarrow> int" where
  "table_total t stc = sum_list (map (\<lambda>sc. dict_get (snd sc) t 0) stc)"

definition compute_table_avg :: "table \<Rightarrow> server_table_count \<Rightarrow> rat" where
  "compute_table_avg t stc =
     (if length stc > 0 then truediv (table_total t stc) (int (length stc)) else 0)"

text \<open>Lines 134-141: the set of all table names and the dict \<open>table_avg\<close>.\<close>

definition all_tables :: "server_table_count \<Rightarrow> table list" where
  "all_tables stc = concat (map (\<lambda>sc. map fst (snd sc)) stc)"

definition table_avg :: "server_table_count \<Rightarrow> table \<Rightarrow> rat option" where
  "table_avg stc t =
     (if t \<in> set (all_tables stc)
      then Some (truediv (table_total t stc) (int (length stc))) else None)"

text \<open>\<open>table_avg.get(table, 0)\<close>. The default is the integer \<open>0\<close>, which Python keeps an
  integer in the operations that follow; an integer and its conversion to a float denote
  the same number for every count below \<open>2 ^ 53\<close>.\<close>

definition avg_get :: "(table \<Rightarrow> rat option) \<Rightarrow> table \<Rightarrow> rat" where
  "avg_get tavg t = (case tavg t of None \<Rightarrow> 0 | Some a \<Rightarrow> a)"

subsection \<open>The working copy\<close>

record wstate =
  stc :: server_table_count
  str_regions :: server_table_regions

subsection \<open>Lines 153-165: donors and receivers\<close>

fun classify ::
  "table \<Rightarrow> rat \<Rightarrow> server_table_count \<Rightarrow> server list
    \<Rightarrow> py_error + ((server \<times> rat) list \<times> (server \<times> rat) list)" where
  "classify hot hot_avg c [] = Inr ([], [])"
| "classify hot hot_avg c (s # ss) =
     (case dict_getitem c s of
        Inl e \<Rightarrow> Inl e
      | Inr cnts \<Rightarrow>
          (case classify hot hot_avg c ss of
             Inl e \<Rightarrow> Inl e
           | Inr (ds, rs) \<Rightarrow>
               (let count = dict_get cnts hot 0 in
                if of_int count > hot_avg
                then Inr ((s, float_sub (py_float count) hot_avg) # ds, rs)
                else if of_int count < hot_avg
                then Inr (ds, (s, float_sub hot_avg (py_float count)) # rs)
                else Inr (ds, rs))))"

text \<open>\<open>xs.sort(key=lambda x: -x[1])\<close>: a stable sort by descending weight.\<close>

definition sort_desc :: "(server \<times> rat) list \<Rightarrow> (server \<times> rat) list" where
  "sort_desc xs = sort_key (\<lambda>x. - snd x) xs"

subsection \<open>Lines 185-205: the cold candidate on one receiver\<close>

text \<open>The running best is \<open>None\<close> while \<open>best_score\<close> is \<open>float('-inf')\<close>, and
  \<open>Some (best_score, best_cold_table, best_cold_region)\<close> afterwards.\<close>

type_synonym cand = "rat \<times> table \<times> region"

definition cold_score ::
  "(table \<Rightarrow> rat option) \<Rightarrow> counts \<Rightarrow> counts \<Rightarrow> table \<Rightarrow> rat" where
  "cold_score tavg rcnts dcnts t =
     (let t_avg = avg_get tavg t;
          t_count_on_receiver = dict_get rcnts t 0;
          score = float_sub (py_float t_count_on_receiver) t_avg;
          t_count_on_donor = dict_get dcnts t 0
      in if of_int (t_count_on_donor + 1) > float_add t_avg 1
         then float_sub score (1/2) else score)"

definition score_gt :: "rat \<Rightarrow> cand option \<Rightarrow> bool" where
  "score_gt score best = (case best of None \<Rightarrow> True | Some (b, _, _) \<Rightarrow> score > b)"

fun best_cold ::
  "table \<Rightarrow> (table \<Rightarrow> rat option) \<Rightarrow> server_table_count \<Rightarrow> server \<Rightarrow> server
    \<Rightarrow> table_regions \<Rightarrow> cand option \<Rightarrow> py_error + cand option" where
  "best_cold hot tavg c donor receiver [] best = Inr best"
| "best_cold hot tavg c donor receiver ((t, regions) # rest) best =
     (case regions of
        [] \<Rightarrow> best_cold hot tavg c donor receiver rest best
      | r0 # _ \<Rightarrow>
          if t = hot then best_cold hot tavg c donor receiver rest best
          else
            (case dict_getitem c receiver of
               Inl e \<Rightarrow> Inl e
             | Inr rcnts \<Rightarrow>
                 (case dict_getitem c donor of
                    Inl e \<Rightarrow> Inl e
                  | Inr dcnts \<Rightarrow>
                      (let score = cold_score tavg rcnts dcnts t in
                       if score_gt score best
                       then best_cold hot tavg c donor receiver rest (Some (score, t, r0))
                       else best_cold hot tavg c donor receiver rest best))))"

subsection \<open>Lines 173-215: the search for the first feasible donor/receiver pair\<close>

fun try_receivers ::
  "table \<Rightarrow> (table \<Rightarrow> rat option) \<Rightarrow> wstate \<Rightarrow> server \<Rightarrow> region \<Rightarrow> server list
    \<Rightarrow> py_error + swap option" where
  "try_receivers hot tavg st donor hot_region [] = Inr None"
| "try_receivers hot tavg st donor hot_region (receiver # rs) =
     (case best_cold hot tavg (stc st) donor receiver
             (dict_get (str_regions st) receiver []) None of
        Inl e \<Rightarrow> Inl e
      | Inr None \<Rightarrow> try_receivers hot tavg st donor hot_region rs
      | Inr (Some (score, best_cold_table, best_cold_region)) \<Rightarrow>
          Inr (Some (hot_region, best_cold_region, best_cold_table, donor, receiver)))"

fun try_donors ::
  "table \<Rightarrow> (table \<Rightarrow> rat option) \<Rightarrow> wstate \<Rightarrow> server list \<Rightarrow> server list
    \<Rightarrow> py_error + swap option" where
  "try_donors hot tavg st [] receivers = Inr None"
| "try_donors hot tavg st (donor # ds) receivers =
     (case dict_get (dict_get (str_regions st) donor []) hot [] of
        [] \<Rightarrow> try_donors hot tavg st ds receivers
      | hot_region # _ \<Rightarrow>
          (case try_receivers hot tavg st donor hot_region receivers of
             Inl e \<Rightarrow> Inl e
           | Inr None \<Rightarrow> try_donors hot tavg st ds receivers
           | Inr (Some sw) \<Rightarrow> Inr (Some sw)))"

subsection \<open>Lines 217-230: applying a swap to the working copy\<close>

text \<open>\<open>c[server][table] -= 1\<close>\<close>

definition count_dec :: "server_table_count \<Rightarrow> server \<Rightarrow> table \<Rightarrow> py_error + server_table_count" where
  "count_dec c s t =
     (case dict_getitem c s of
        Inl e \<Rightarrow> Inl e
      | Inr cnts \<Rightarrow>
          (case dict_getitem cnts t of
             Inl e \<Rightarrow> Inl e
           | Inr n \<Rightarrow> Inr (AList.update s (AList.update t (n - 1) cnts) c)))"

text \<open>\<open>c[server][table] = c[server].get(table, 0) + 1\<close>\<close>

definition count_inc :: "server_table_count \<Rightarrow> server \<Rightarrow> table \<Rightarrow> py_error + server_table_count" where
  "count_inc c s t =
     (case dict_getitem c s of
        Inl e \<Rightarrow> Inl e
      | Inr cnts \<Rightarrow> Inr (AList.update s (AList.update t (dict_get cnts t 0 + 1) cnts) c))"

text \<open>\<open>rg[server][table].remove(region)\<close>\<close>

definition region_remove ::
  "server_table_regions \<Rightarrow> server \<Rightarrow> table \<Rightarrow> region \<Rightarrow> py_error + server_table_regions" where
  "region_remove rg s t r =
     (case dict_getitem rg s of
        Inl e \<Rightarrow> Inl e
      | Inr tabs \<Rightarrow>
          (case dict_getitem tabs t of
             Inl e \<Rightarrow> Inl e
           | Inr l \<Rightarrow>
               (case list_remove l r of
                  Inl e \<Rightarrow> Inl e
                | Inr l' \<Rightarrow> Inr (AList.update s (AList.update t l' tabs) rg))))"

text \<open>\<open>if table not in rg[server]: rg[server][table] = []\<close> followed by
  \<open>rg[server][table].append(region)\<close>\<close>

definition region_append ::
  "server_table_regions \<Rightarrow> server \<Rightarrow> table \<Rightarrow> region \<Rightarrow> py_error + server_table_regions" where
  "region_append rg s t r =
     (case dict_getitem rg s of
        Inl e \<Rightarrow> Inl e
      | Inr tabs \<Rightarrow>
          (let tabs' = (if t \<in> set (map fst tabs) then tabs else AList.update t [] tabs) in
           case dict_getitem tabs' t of
             Inl e \<Rightarrow> Inl e
           | Inr l \<Rightarrow> Inr (AList.update s (AList.update t (l @ [r]) tabs') rg)))"

definition bind_err :: "py_error + 'a \<Rightarrow> ('a \<Rightarrow> py_error + 'b) \<Rightarrow> py_error + 'b" where
  "bind_err m f = (case m of Inl e \<Rightarrow> Inl e | Inr v \<Rightarrow> f v)"

definition apply_swap :: "table \<Rightarrow> wstate \<Rightarrow> swap \<Rightarrow> py_error + wstate" where
  "apply_swap hot st sw =
     (case sw of (hot_region, cold_region, cold_table, donor, receiver) \<Rightarrow>
        bind_err (count_dec (stc st) donor hot) (\<lambda>c1.
        bind_err (count_inc c1 receiver hot) (\<lambda>c2.
        bind_err (region_remove (str_regions st) donor hot hot_region) (\<lambda>g1.
        bind_err (region_append g1 receiver hot hot_region) (\<lambda>g2.
        bind_err (count_dec c2 receiver cold_table) (\<lambda>c3.
        bind_err (count_inc c3 donor cold_table) (\<lambda>c4.
        bind_err (region_remove g2 receiver cold_table cold_region) (\<lambda>g3.
        bind_err (region_append g3 donor cold_table cold_region) (\<lambda>g4.
        Inr \<lparr>stc = c4, str_regions = g4\<rparr>)))))))))"

subsection \<open>Lines 149-241: one iteration and the bounded loop\<close>

text \<open>One pass of the \<open>while\<close> body. \<open>Inr None\<close> is a \<open>break\<close>; \<open>Inr (Some (sw, st'))\<close>
  is an iteration that recorded \<open>sw\<close> and left the working copy \<open>st'\<close>.\<close>

definition plan_step ::
  "table \<Rightarrow> (table \<Rightarrow> rat option) \<Rightarrow> rat \<Rightarrow> server list \<Rightarrow> wstate
    \<Rightarrow> py_error + (swap \<times> wstate) option" where
  "plan_step hot tavg hot_avg servers st =
     (case classify hot hot_avg (stc st) servers of
        Inl e \<Rightarrow> Inl e
      | Inr (ds, rs) \<Rightarrow>
          (let donors = sort_desc ds; receivers = sort_desc rs in
           if donors = [] \<or> receivers = [] then Inr None
           else
             (case try_donors hot tavg st (map fst donors) (map fst receivers) of
                Inl e \<Rightarrow> Inl e
              | Inr None \<Rightarrow> Inr None
              | Inr (Some sw) \<Rightarrow>
                  (case apply_swap hot st sw of
                     Inl e \<Rightarrow> Inl e
                   | Inr st' \<Rightarrow> Inr (Some (sw, st'))))))"

text \<open>The \<open>while iteration < max_iterations\<close> loop; the first argument is the number of
  iterations still allowed.\<close>

fun plan_loop ::
  "nat \<Rightarrow> table \<Rightarrow> (table \<Rightarrow> rat option) \<Rightarrow> rat \<Rightarrow> server list \<Rightarrow> wstate \<Rightarrow> swap list
    \<Rightarrow> py_error + (swap list \<times> wstate)" where
  "plan_loop 0 hot tavg hot_avg servers st swap_plan = Inr (swap_plan, st)"
| "plan_loop (Suc k) hot tavg hot_avg servers st swap_plan =
     (case plan_step hot tavg hot_avg servers st of
        Inl e \<Rightarrow> Inl e
      | Inr None \<Rightarrow> Inr (swap_plan, st)
      | Inr (Some (sw, st')) \<Rightarrow> plan_loop k hot tavg hot_avg servers st' (swap_plan @ [sw]))"

definition max_iterations :: nat where
  "max_iterations = 1000"

text \<open>The planner up to the end of its loop, stopped after at most \<open>n\<close> iterations, with
  the working copy it ends in. The working copy starts as the snapshot: on values the
  deep copy of lines 129-131 is the identity; which objects the planner writes to is the
  subject of the store model further down.\<close>

definition plan_run ::
  "nat \<Rightarrow> table \<Rightarrow> server_table_count \<Rightarrow> server_table_regions
    \<Rightarrow> py_error + (swap list \<times> wstate)" where
  "plan_run n hot c rg =
     plan_loop n hot (table_avg c) (avg_get (table_avg c) hot) (map fst c)
       \<lparr>stc = c, str_regions = rg\<rparr> []"

definition compute_balance_plan ::
  "table \<Rightarrow> server_table_count \<Rightarrow> server_table_regions \<Rightarrow> py_error + swap list" where
  "compute_balance_plan hot c rg =
     (if map fst c = [] then Inr []
      else (case plan_run max_iterations hot c rg of
              Inl e \<Rightarrow> Inl e
            | Inr (swap_plan, st) \<Rightarrow> Inr swap_plan))"

subsection \<open>Lines 342-347 of \<open>main\<close>: replaying a plan on the counts\<close>

definition simulate_swap :: "table \<Rightarrow> server_table_count \<Rightarrow> swap \<Rightarrow> py_error + server_table_count" where
  "simulate_swap hot c sw =
     (case sw of (hot_region, cold_region, cold_table, source, target) \<Rightarrow>
        bind_err (count_dec c source hot) (\<lambda>c1.
        bind_err (count_inc c1 target hot) (\<lambda>c2.
        bind_err (count_dec c2 target cold_table) (\<lambda>c3.
        count_inc c3 source cold_table))))"

fun simulate :: "table \<Rightarrow> server_table_count \<Rightarrow> swap list \<Rightarrow> py_error + server_table_count" where
  "simulate hot c [] = Inr c"
| "simulate hot c (sw # sws) =
     (case simulate_swap hot c sw of Inl e \<Rightarrow> Inl e | Inr c' \<Rightarrow> simulate hot c' sws)"

subsection \<open>Well-formed snapshots\<close>

text \<open>The count of table \<open>t\<close> on server \<open>s\<close>, and the region list of \<open>t\<close> on \<open>s\<close>,
  with the defaults the code uses for missing keys.\<close>

definition count_of :: "server_table_count \<Rightarrow> server \<Rightarrow> table \<Rightarrow> int" where
  "count_of c s t = dict_get (dict_get c s []) t 0"

definition regions_of :: "server_table_regions \<Rightarrow> server \<Rightarrow> table \<Rightarrow> region list" where
  "regions_of g s t = dict_get (dict_get g s []) t []"

text \<open>The count map and the region lists agree: every count is the length of the
  corresponding region list. (Only the keys that occur can differ from the defaults,
  so the check ranges over them.)\<close>

definition consistent :: "server_table_count \<Rightarrow> server_table_regions \<Rightarrow> bool" where
  "consistent c g =
     (\<forall>s \<in> set (map fst c @ map fst g).
        \<forall>t \<in> set (map fst (dict_get c s []) @ map fst (dict_get g s [])).
          count_of c s t = int (length (regions_of g s t)))"

text \<open>Every per-server table dict of the region map has distinct keys, as a Python
  dict does.\<close>

definition regions_distinct :: "server_table_regions \<Rightarrow> bool" where
  "regions_distinct g = (\<forall>st \<in> set g. distinct (map fst (snd st)))"

definition snapshot_ok :: "server_table_count \<Rightarrow> server_table_regions \<Rightarrow> bool" where
  "snapshot_ok c g = (consistent c g \<and> regions_distinct g)"


subsection \<open>Lines 58-96: building the snapshot from the matched lines of the dump\<close>

text \<open>
  Reading the file and matching its lines against the two regular expressions is outside
  the model: a line arrives as the groups of the pattern that matched it. \<open>ServerLine\<close>
  carries groups 1 to 4 of \<open>server_pattern\<close> (full table name, encoded region name,
  host, port), \<open>StartcodeLine\<close> groups 2 and 3 of \<open>startcode_pattern\<close> (encoded region
  name, start code), and \<open>OtherLine\<close> is a line that matches neither.
\<close>

datatype meta_line =
  ServerLine string string string string
| StartcodeLine string string
| OtherLine

record analysis =
  region_server_info :: "(region \<times> table \<times> server \<times> string) list"
  server_table_count :: server_table_count
  region_info :: "(region \<times> table \<times> server) list"
  server_table_regions :: server_table_regions
  server_fullname :: "(server \<times> string) list"

definition analysis_empty :: analysis where
  "analysis_empty =
     \<lparr>region_server_info = [], server_table_count = [], region_info = [],
      server_table_regions = [], server_fullname = []\<rparr>"

text \<open>\<open>full_table_name.split(',')[0]\<close> and \<open>table_name.startswith('hbase:')\<close>\<close>

definition split_comma_first :: "string \<Rightarrow> string" where
  "split_comma_first s = takeWhile (\<lambda>ch. ch \<noteq> CHR '','') s"

definition is_internal_table :: "string \<Rightarrow> bool" where
  "is_internal_table table_name = (take 6 table_name = ''hbase:'')"

text \<open>The body of the \<open>for line in f\<close> loop. The two result dicts are
  \<open>defaultdict\<close>s: a missing server gets an empty inner dict, a missing table the count 0
  or the empty list.\<close>

fun analyze_line :: "analysis \<Rightarrow> meta_line \<Rightarrow> analysis" where
  "analyze_line a (ServerLine full_table_name encoded_name server_host server_port) =
     (let table_name = split_comma_first full_table_name in
      if is_internal_table table_name then a
      else a\<lparr>region_server_info :=
               AList.update encoded_name (table_name, server_host, server_port)
                 (region_server_info a)\<rparr>)"
| "analyze_line a (StartcodeLine encoded_name startcode) =
     (case map_of (region_server_info a) encoded_name of
        None \<Rightarrow> a
      | Some (table_name, server_host, server_port) \<Rightarrow>
          (let full_server_name = server_host @ '','' @ server_port @ '','' @ startcode;
               cnts = dict_get (server_table_count a) server_host [];
               tabs = dict_get (server_table_regions a) server_host []
           in a\<lparr>server_fullname :=
                   AList.update server_host full_server_name (server_fullname a),
                 server_table_count :=
                   AList.update server_host
                     (AList.update table_name (dict_get cnts table_name 0 + 1) cnts)
                     (server_table_count a),
                 region_info :=
                   AList.update encoded_name (table_name, server_host) (region_info a),
                 server_table_regions :=
                   AList.update server_host
                     (AList.update table_name (dict_get tabs table_name [] @ [encoded_name]) tabs)
                     (server_table_regions a)\<rparr>))"
| "analyze_line a OtherLine = a"

definition analyze_distribution :: "meta_line list \<Rightarrow> analysis" where
  "analyze_distribution lines = foldl analyze_line analysis_empty lines"

subsection \<open>Lines 263-284: \<open>generate_plan\<close>\<close>

text \<open>\<open>str(n)\<close> for a non-negative integer, and the newline character.\<close>

fun str_nat :: "nat \<Rightarrow> string" where
  "str_nat n =
     (if n < 10 then [''0123456789'' ! n]
      else str_nat (n div 10) @ [''0123456789'' ! (n mod 10)])"

declare str_nat.simps [simp del]

definition nl :: string where
  "nl = [CHR 0x0A]"

text \<open>The three \<open>f.write\<close> calls with text of one pass of the loop over the plan (the
  fourth writes the empty line that ends the block).\<close>

definition pair_block ::
  "table \<Rightarrow> (server \<times> string) list \<Rightarrow> nat \<Rightarrow> swap \<Rightarrow> string list" where
  "pair_block hot_table fullname i sw =
     (case sw of (hot_region, cold_region, cold_table, source, target) \<Rightarrow>
        (let source_full = dict_get fullname source source;
             target_full = dict_get fullname target target
         in [''# Pair '' @ str_nat i @ '': '' @ hot_table @ '' ('' @ source @ '' -> '' @ target
               @ ''), '' @ cold_table @ '' ('' @ target @ '' -> '' @ source @ '')'' @ nl,
             ''move '' @ [CHR 0x27] @ hot_region @ [CHR 0x27] @ '', '' @ [CHR 0x27]
               @ target_full @ [CHR 0x27] @ nl,
             ''move '' @ [CHR 0x27] @ cold_region @ [CHR 0x27] @ '', '' @ [CHR 0x27]
               @ source_full @ [CHR 0x27] @ nl,
             nl]))"

text \<open>The strings that \<open>generate_plan\<close> writes to the file it has opened, in order
  (lines 266-281).\<close>

definition generate_plan ::
  "swap list \<Rightarrow> table \<Rightarrow> (server \<times> string) list \<Rightarrow> string list" where
  "generate_plan swap_plan hot_table fullname =
     [''# Auto-generated swap plan for balancing'' @ nl,
      ''# Hot table: '' @ hot_table @ nl,
      ''# Total swaps: '' @ str_nat (length swap_plan) @ nl @ nl,
      ''balance_switch false'' @ nl @ nl]
     @ concat (map (\<lambda>(i, sw). pair_block hot_table fullname i sw)
                 (zip [1 ..< Suc (length swap_plan)] swap_plan))
     @ [''# balance_switch true # Uncomment to enable after verification'' @ nl]"




subsection \<open>Lines 287-382: \<open>main\<close>\<close>




subsection \<open>The planner on a store of mutable objects\<close>

text \<open>
  Whether the caller's snapshot survives the call depends on which objects the planner
  writes to, so here the inner dicts and the region lists are objects in a store, named
  by their addresses. An object is an inner count dict, an inner dict from table names
  to region lists (holding the addresses of the lists), or a region list. The store is
  the list of all objects allocated so far; allocating appends. The two outer dicts are
  given by the addresses of their values; no statement of the planner assigns into an
  outer dict.

  A computation takes the store and returns its outcome (a value or the exception
  raised) together with the store it leaves.
\<close>

type_synonym addr = nat

datatype obj = Counts counts | Tables "(table \<times> addr) list" | Regions "region list"

type_synonym heap = "obj list"

type_synonym 'a hm = "heap \<Rightarrow> (py_error + 'a) \<times> heap"

definition hreturn :: "'a \<Rightarrow> 'a hm" where
  "hreturn x = (\<lambda>h. (Inr x, h))"

definition hlift :: "py_error + 'a \<Rightarrow> 'a hm" where
  "hlift r = (\<lambda>h. (r, h))"

definition hbind :: "'a hm \<Rightarrow> ('a \<Rightarrow> 'b hm) \<Rightarrow> 'b hm" where
  "hbind m f = (\<lambda>h. case m h of (Inl e, h') \<Rightarrow> (Inl e, h') | (Inr x, h') \<Rightarrow> f x h')"

text \<open>Reading the object behind a reference. An address outside the store, or an object
  of another kind, cannot occur in a Python run; the model answers \<open>TypeError\<close>.\<close>

definition read_counts :: "addr \<Rightarrow> counts hm" where
  "read_counts a = (\<lambda>h.
     (if a < length h then (case h ! a of Counts cs \<Rightarrow> Inr cs | _ \<Rightarrow> Inl TypeError)
      else Inl TypeError, h))"

definition read_tables :: "addr \<Rightarrow> (table \<times> addr) list hm" where
  "read_tables a = (\<lambda>h.
     (if a < length h then (case h ! a of Tables tabs \<Rightarrow> Inr tabs | _ \<Rightarrow> Inl TypeError)
      else Inl TypeError, h))"

definition read_regions :: "addr \<Rightarrow> region list hm" where
  "read_regions a = (\<lambda>h.
     (if a < length h then (case h ! a of Regions l \<Rightarrow> Inr l | _ \<Rightarrow> Inl TypeError)
      else Inl TypeError, h))"

definition alloc :: "obj \<Rightarrow> addr hm" where
  "alloc ob = (\<lambda>h. (Inr (length h), h @ [ob]))"

definition write_obj :: "addr \<Rightarrow> obj \<Rightarrow> unit hm" where
  "write_obj a ob = (\<lambda>h. (Inr (), h[a := ob]))"

text \<open>Line 129: \<open>{s: dict(counts) for s, counts in server_table_count.items()}\<close>\<close>

fun copy_counts :: "(server \<times> addr) list \<Rightarrow> (server \<times> addr) list hm" where
  "copy_counts [] = hreturn []"
| "copy_counts ((s, a) # rest) =
     hbind (read_counts a) (\<lambda>cs.
     hbind (alloc (Counts cs)) (\<lambda>a'.
     hbind (copy_counts rest) (\<lambda>rest'.
     hreturn ((s, a') # rest'))))"

text \<open>Lines 130-131: \<open>{t: list(regions) for t, regions in tables.items()}\<close> for each
  server\<close>

fun copy_lists :: "(table \<times> addr) list \<Rightarrow> (table \<times> addr) list hm" where
  "copy_lists [] = hreturn []"
| "copy_lists ((t, la) # rest) =
     hbind (read_regions la) (\<lambda>l.
     hbind (alloc (Regions l)) (\<lambda>la'.
     hbind (copy_lists rest) (\<lambda>rest'.
     hreturn ((t, la') # rest'))))"

fun copy_tables :: "(server \<times> addr) list \<Rightarrow> (server \<times> addr) list hm" where
  "copy_tables [] = hreturn []"
| "copy_tables ((s, a) # rest) =
     hbind (read_tables a) (\<lambda>tabs.
     hbind (copy_lists tabs) (\<lambda>tabs'.
     hbind (alloc (Tables tabs')) (\<lambda>a'.
     hbind (copy_tables rest) (\<lambda>rest'.
     hreturn ((s, a') # rest')))))"

text \<open>The contents of the objects behind an outer dict: what the planner sees when it
  reads through it.\<close>

fun view_counts :: "(server \<times> addr) list \<Rightarrow> server_table_count hm" where
  "view_counts [] = hreturn []"
| "view_counts ((s, a) # rest) =
     hbind (read_counts a) (\<lambda>cs.
     hbind (view_counts rest) (\<lambda>rest'.
     hreturn ((s, cs) # rest')))"

fun view_lists :: "(table \<times> addr) list \<Rightarrow> table_regions hm" where
  "view_lists [] = hreturn []"
| "view_lists ((t, la) # rest) =
     hbind (read_regions la) (\<lambda>l.
     hbind (view_lists rest) (\<lambda>rest'.
     hreturn ((t, l) # rest')))"

fun view_regions :: "(server \<times> addr) list \<Rightarrow> server_table_regions hm" where
  "view_regions [] = hreturn []"
| "view_regions ((s, a) # rest) =
     hbind (read_tables a) (\<lambda>tabs.
     hbind (view_lists tabs) (\<lambda>tabs'.
     hbind (view_regions rest) (\<lambda>rest'.
     hreturn ((s, tabs') # rest'))))"

text \<open>The four statement forms of lines 218-230, now as writes to objects.\<close>

definition heap_count_dec :: "(server \<times> addr) list \<Rightarrow> server \<Rightarrow> table \<Rightarrow> unit hm" where
  "heap_count_dec wc s t =
     hbind (hlift (dict_getitem wc s)) (\<lambda>a.
     hbind (read_counts a) (\<lambda>cs.
     hbind (hlift (dict_getitem cs t)) (\<lambda>n.
     write_obj a (Counts (AList.update t (n - 1) cs)))))"

definition heap_count_inc :: "(server \<times> addr) list \<Rightarrow> server \<Rightarrow> table \<Rightarrow> unit hm" where
  "heap_count_inc wc s t =
     hbind (hlift (dict_getitem wc s)) (\<lambda>a.
     hbind (read_counts a) (\<lambda>cs.
     write_obj a (Counts (AList.update t (dict_get cs t 0 + 1) cs))))"

definition heap_region_remove ::
  "(server \<times> addr) list \<Rightarrow> server \<Rightarrow> table \<Rightarrow> region \<Rightarrow> unit hm" where
  "heap_region_remove wr s t r =
     hbind (hlift (dict_getitem wr s)) (\<lambda>a.
     hbind (read_tables a) (\<lambda>tabs.
     hbind (hlift (dict_getitem tabs t)) (\<lambda>la.
     hbind (read_regions la) (\<lambda>l.
     hbind (hlift (list_remove l r)) (\<lambda>l'.
     write_obj la (Regions l'))))))"

definition heap_region_append ::
  "(server \<times> addr) list \<Rightarrow> server \<Rightarrow> table \<Rightarrow> region \<Rightarrow> unit hm" where
  "heap_region_append wr s t r =
     hbind (hlift (dict_getitem wr s)) (\<lambda>a.
     hbind (read_tables a) (\<lambda>tabs.
     hbind (if t \<in> set (map fst tabs) then hreturn ()
            else hbind (alloc (Regions [])) (\<lambda>la.
                 write_obj a (Tables (AList.update t la tabs)))) (\<lambda>_.
     hbind (read_tables a) (\<lambda>tabs'.
     hbind (hlift (dict_getitem tabs' t)) (\<lambda>la.
     hbind (read_regions la) (\<lambda>l.
     write_obj la (Regions (l @ [r]))))))))"

definition heap_apply_swap ::
  "table \<Rightarrow> (server \<times> addr) list \<Rightarrow> (server \<times> addr) list \<Rightarrow> swap \<Rightarrow> unit hm" where
  "heap_apply_swap hot wc wr sw =
     (case sw of (hot_region, cold_region, cold_table, donor, receiver) \<Rightarrow>
        hbind (heap_count_dec wc donor hot) (\<lambda>_.
        hbind (heap_count_inc wc receiver hot) (\<lambda>_.
        hbind (heap_region_remove wr donor hot hot_region) (\<lambda>_.
        hbind (heap_region_append wr receiver hot hot_region) (\<lambda>_.
        hbind (heap_count_dec wc receiver cold_table) (\<lambda>_.
        hbind (heap_count_inc wc donor cold_table) (\<lambda>_.
        hbind (heap_region_remove wr receiver cold_table cold_region) (\<lambda>_.
        heap_region_append wr donor cold_table cold_region))))))))"

text \<open>One iteration: the planner reads the working copy through its two outer dicts,
  chooses the swap as in \<open>plan_step\<close>, and applies it to the objects.\<close>

definition heap_plan_step ::
  "table \<Rightarrow> (table \<Rightarrow> rat option) \<Rightarrow> rat \<Rightarrow> server list
    \<Rightarrow> (server \<times> addr) list \<Rightarrow> (server \<times> addr) list \<Rightarrow> swap option hm" where
  "heap_plan_step hot tavg hot_avg servers wc wr =
     hbind (view_counts wc) (\<lambda>c.
     hbind (view_regions wr) (\<lambda>g.
     hbind (hlift (classify hot hot_avg c servers)) (\<lambda>(ds, rs).
       (let donors = sort_desc ds; receivers = sort_desc rs in
        if donors = [] \<or> receivers = [] then hreturn None
        else
          hbind (hlift (try_donors hot tavg \<lparr>stc = c, str_regions = g\<rparr>
                          (map fst donors) (map fst receivers))) (\<lambda>found.
            case found of
              None \<Rightarrow> hreturn None
            | Some sw \<Rightarrow> hbind (heap_apply_swap hot wc wr sw) (\<lambda>_. hreturn (Some sw)))))))"

fun heap_plan_loop ::
  "nat \<Rightarrow> table \<Rightarrow> (table \<Rightarrow> rat option) \<Rightarrow> rat \<Rightarrow> server list
    \<Rightarrow> (server \<times> addr) list \<Rightarrow> (server \<times> addr) list \<Rightarrow> swap list \<Rightarrow> swap list hm" where
  "heap_plan_loop 0 hot tavg hot_avg servers wc wr swap_plan h = (Inr swap_plan, h)"
| "heap_plan_loop (Suc k) hot tavg hot_avg servers wc wr swap_plan h =
     (case heap_plan_step hot tavg hot_avg servers wc wr h of
        (Inl e, h') \<Rightarrow> (Inl e, h')
      | (Inr None, h') \<Rightarrow> (Inr swap_plan, h')
      | (Inr (Some sw), h') \<Rightarrow>
          heap_plan_loop k hot tavg hot_avg servers wc wr (swap_plan @ [sw]) h')"

text \<open>\<open>compute_balance_plan\<close> given the two outer dicts of the caller's snapshot.\<close>

definition heap_compute_balance_plan ::
  "table \<Rightarrow> (server \<times> addr) list \<Rightarrow> (server \<times> addr) list \<Rightarrow> swap list hm" where
  "heap_compute_balance_plan hot sc sr =
     (if map fst sc = [] then hreturn []
      else
        hbind (copy_counts sc) (\<lambda>wc.
        hbind (copy_tables sr) (\<lambda>wr.
        hbind (view_counts sc) (\<lambda>c0.
        heap_plan_loop max_iterations hot (table_avg c0) (avg_get (table_avg c0) hot)
          (map fst sc) wc wr []))))"


subsection \<open>Auxiliary notions used in the statements\<close>

definition swap_delta :: "table \<Rightarrow> swap \<Rightarrow> server \<Rightarrow> table \<Rightarrow> int" where
  "swap_delta hot sw s t =
     (case sw of (h, cr, ct, d, r) \<Rightarrow>
        of_bool (s = r \<and> t = hot) - of_bool (s = d \<and> t = hot)
        + of_bool (s = d \<and> t = ct) - of_bool (s = r \<and> t = ct))"

definition donors_spec :: "table \<Rightarrow> rat \<Rightarrow> server_table_count \<Rightarrow> server list \<Rightarrow> (server \<times> rat) list" where
  "donors_spec hot hot_avg c servers =
     map (\<lambda>s. (s, float_sub (py_float (count_of c s hot)) hot_avg))
       (filter (\<lambda>s. of_int (count_of c s hot) > hot_avg) servers)"

definition receivers_spec :: "table \<Rightarrow> rat \<Rightarrow> server_table_count \<Rightarrow> server list \<Rightarrow> (server \<times> rat) list" where
  "receivers_spec hot hot_avg c servers =
     map (\<lambda>s. (s, float_sub hot_avg (py_float (count_of c s hot))))
       (filter (\<lambda>s. of_int (count_of c s hot) < hot_avg) servers)"

definition wstate_ok :: "wstate \<Rightarrow> bool" where
  "wstate_ok st \<longleftrightarrow> consistent (stc st) (str_regions st) \<and> regions_distinct (str_regions st)"

text \<open>The hot table's count on every server equals the hot table's global average.\<close>

definition hot_balanced :: "table \<Rightarrow> server_table_count \<Rightarrow> bool" where
  "hot_balanced hot c =
     (\<forall>sc \<in> set c. of_int (dict_get (snd sc) hot 0) = compute_table_avg hot c)"

subsection \<open>The cold candidate and the first feasible pair, in the words of the specification\<close>






definition first_some :: "('a \<Rightarrow> 'b option) \<Rightarrow> 'a list \<Rightarrow> 'b option" where
  "first_some f xs = (case List.map_filter f xs of [] \<Rightarrow> None | y # _ \<Rightarrow> Some y)"



text \<open>The swaps that successive iterations record, starting from a working copy:
  \<open>recorded \<dots> st swaps\<close> is \<open>Some st'\<close> when each swap of the list is the one
  \<open>plan_step\<close> records in the working copy left by the swaps before it, and \<open>st'\<close> is
  the working copy after the last; it is \<open>None\<close> when some iteration breaks, raises or
  records another swap.\<close>

fun recorded ::
  "table \<Rightarrow> (table \<Rightarrow> rat option) \<Rightarrow> rat \<Rightarrow> server list \<Rightarrow> wstate \<Rightarrow> swap list
    \<Rightarrow> wstate option" where
  "recorded hot tavg hot_avg servers st [] = Some st"
| "recorded hot tavg hot_avg servers st (sw # sws) =
     (case plan_step hot tavg hot_avg servers st of
        Inr (Some (sw', st')) \<Rightarrow>
          if sw' = sw then recorded hot tavg hot_avg servers st' sws else None
      | _ \<Rightarrow> None)"

text \<open>The distance of a server's hot-table count from the hot table's average.\<close>

definition hot_deviation :: "table \<Rightarrow> server_table_count \<Rightarrow> server_table_count \<Rightarrow> server \<Rightarrow> rat" where
  "hot_deviation hot c0 c s = \<bar>of_int (count_of c s hot) - compute_table_avg hot c0\<bar>"

subsection \<open>Framing on the store\<close>

text \<open>The invariant behind the frame property, for a store that had \<open>n\<close> objects when
  the planner was called: every reference held by the working copy, and every reference
  inside a table dict allocated since, names an object allocated since.\<close>

definition fresh_refs :: "nat \<Rightarrow> ('k \<times> addr) list \<Rightarrow> bool" where
  "fresh_refs n refs = (\<forall>a \<in> snd ` set refs. n \<le> a)"

definition fresh_obj :: "nat \<Rightarrow> obj \<Rightarrow> bool" where
  "fresh_obj n ob = (case ob of Tables tabs \<Rightarrow> fresh_refs n tabs | _ \<Rightarrow> True)"

definition hinv :: "nat \<Rightarrow> heap \<Rightarrow> bool" where
  "hinv n h = (n \<le> length h \<and> (\<forall>a. n \<le> a \<and> a < length h \<longrightarrow> fresh_obj n (h ! a)))"

text \<open>The first \<open>n\<close> objects are the same in both stores.\<close>

definition same_below :: "nat \<Rightarrow> heap \<Rightarrow> heap \<Rightarrow> bool" where
  "same_below n h h' = (\<forall>a < n. h' ! a = h ! a)"

text \<open>A computation started in a store satisfying the invariant keeps the invariant and
  the first \<open>n\<close> objects, and its value, if it returns one, satisfies \<open>Q\<close>.\<close>

definition frames :: "nat \<Rightarrow> 'a hm \<Rightarrow> ('a \<Rightarrow> bool) \<Rightarrow> bool" where
  "frames n m Q =
     (\<forall>h. hinv n h \<longrightarrow>
        (case m h of (r, h') \<Rightarrow>
           hinv n h' \<and> same_below n h h' \<and> (case r of Inl e \<Rightarrow> True | Inr x \<Rightarrow> Q x)))"

definition extends :: "heap \<Rightarrow> heap \<Rightarrow> bool" where
  "extends h h' = (length h \<le> length h' \<and> same_below (length h) h h')"

subsection \<open>The store as a representation of the working copy\<close>

text \<open>An outer dict of references represents a dict of values when each reference names
  an object with that value.\<close>

definition counts_rel :: "heap \<Rightarrow> server \<times> addr \<Rightarrow> server \<times> counts \<Rightarrow> bool" where
  "counts_rel h = (\<lambda>(s, a) (s', cs). s' = s \<and> a < length h \<and> h ! a = Counts cs)"

definition lists_rel :: "heap \<Rightarrow> table \<times> addr \<Rightarrow> table \<times> region list \<Rightarrow> bool" where
  "lists_rel h = (\<lambda>(t, la) (t', l). t' = t \<and> la < length h \<and> h ! la = Regions l)"

definition tables_rel :: "heap \<Rightarrow> server \<times> addr \<Rightarrow> server \<times> table_regions \<Rightarrow> bool" where
  "tables_rel h = (\<lambda>(s, a) (s', tv). s' = s \<and> a < length h \<and>
      (\<exists>tabs. h ! a = Tables tabs \<and> list_all2 (lists_rel h) tabs tv))"

text \<open>The addresses of the region lists of one table dict, and of all of them.\<close>

definition seg :: "heap \<Rightarrow> addr \<Rightarrow> addr list" where
  "seg h a = (case h ! a of Tables tabs \<Rightarrow> map snd tabs | _ \<Rightarrow> [])"

definition list_addrs :: "heap \<Rightarrow> (server \<times> addr) list \<Rightarrow> addr list" where
  "list_addrs h wr =
     concat (map (\<lambda>(s, a). case h ! a of Tables tabs \<Rightarrow> map snd tabs | _ \<Rightarrow> []) wr)"

text \<open>The working copy in the store represents the value-level working copy, and no two
  entries share an object.\<close>

definition rep ::
  "heap \<Rightarrow> (server \<times> addr) list \<Rightarrow> (server \<times> addr) list
    \<Rightarrow> server_table_count \<Rightarrow> server_table_regions \<Rightarrow> bool" where
  "rep h wc wr c g \<longleftrightarrow>
     list_all2 (counts_rel h) wc c \<and> list_all2 (tables_rel h) wr g \<and>
     distinct (map snd wc) \<and> distinct (map snd wr) \<and> distinct (list_addrs h wr)"

text \<open>A relation between entries that relates equal keys only.\<close>

definition keyed :: "('k \<times> 'a \<Rightarrow> 'k \<times> 'b \<Rightarrow> bool) \<Rightarrow> bool" where
  "keyed R = (\<forall>x y. R x y \<longrightarrow> fst y = fst x)"

text \<open>A store computation mirrors a value-level one: the same outcome, and on success the
  store and the value are related by \<open>R\<close>.\<close>

definition sim :: "unit hm \<Rightarrow> heap \<Rightarrow> py_error + 'a \<Rightarrow> (heap \<Rightarrow> 'a \<Rightarrow> bool) \<Rightarrow> bool" where
  "sim m h p R = (\<exists>h'. m h = (map_sum id (\<lambda>_. ()) p, h') \<and> (\<forall>x. p = Inr x \<longrightarrow> R h' x))"


subsection \<open>Concrete snapshots\<close>

text \<open>Two servers, the hot table at 3 and 1 regions (average 2), one cold region each.\<close>

definition ex_c :: server_table_count where
  "ex_c = [(''S1'', [(''hot'', 3), (''cold'', 1)]), (''S2'', [(''hot'', 1), (''cold'', 1)])]"

definition ex_g :: server_table_regions where
  "ex_g = [(''S1'', [(''hot'', [''h1'', ''h2'', ''h3'']), (''cold'', [''c1''])]),
           (''S2'', [(''hot'', [''h4'']), (''cold'', [''c2''])])]"

text \<open>Scenario B of the specification: the hot table already at 5 on each of three servers.\<close>

definition ex_balanced :: server_table_count where
  "ex_balanced = [(''S1'', [(''hot'', 5)]), (''S2'', [(''hot'', 5)]), (''S3'', [(''hot'', 5)])]"



text \<open>A near-balanced snapshot: one hot region on two servers (average 0.5), one cold
  region on each server; and the working copies the planner cycles through on it.\<close>

definition osc_c :: server_table_count where
  "osc_c = [(''S1'', [(''hot'', 1), (''cold'', 1)]), (''S2'', [(''cold'', 1)])]"

definition osc_g :: server_table_regions where
  "osc_g = [(''S1'', [(''hot'', [''h1'']), (''cold'', [''c1''])]), (''S2'', [(''cold'', [''c2''])])]"

definition osc_state :: "region list \<Rightarrow> bool \<Rightarrow> wstate" where
  "osc_state cs on_s1 =
     (if on_s1 then
        \<lparr>stc = [(''S1'', [(''hot'', 1), (''cold'', 1)]), (''S2'', [(''cold'', 1), (''hot'', 0)])],
         str_regions = [(''S1'', [(''hot'', [''h1'']), (''cold'', [cs ! 0])]),
                        (''S2'', [(''cold'', [cs ! 1]), (''hot'', [])])]\<rparr>
      else
        \<lparr>stc = [(''S1'', [(''hot'', 0), (''cold'', 2)]), (''S2'', [(''cold'', 0), (''hot'', 1)])],
         str_regions = [(''S1'', [(''hot'', []), (''cold'', [cs ! 0, cs ! 1])]),
                        (''S2'', [(''cold'', []), (''hot'', [''h1''])])]\<rparr>)"

definition osc_cycle :: "wstate set" where
  "osc_cycle = {osc_state [''c1'', ''c2''] False, osc_state [''c2'', ''c1''] True,
                osc_state [''c2'', ''c1''] False, osc_state [''c1'', ''c2''] True}"




text \<open>The first snapshot above as objects in a store, with its two outer dicts.\<close>

definition ex_heap :: heap where
  "ex_heap =
     [Counts [(''hot'', 3), (''cold'', 1)], Counts [(''hot'', 1), (''cold'', 1)],
      Regions [''h1'', ''h2'', ''h3''], Regions [''c1''], Tables [(''hot'', 2), (''cold'', 3)],
      Regions [''h4''], Regions [''c2''], Tables [(''hot'', 5), (''cold'', 6)]]"

definition ex_sc :: "(server \<times> addr) list" where
  "ex_sc = [(''S1'', 0), (''S2'', 1)]"

definition ex_sr :: "(server \<times> addr) list" where
  "ex_sr = [(''S1'', 4), (''S2'', 7)]"


section \<open>Properties\<close>

subsection \<open>Dictionary updates\<close>

lemma dict_get_update:
  "dict_get (AList.update k v d) k' dflt = (if k' = k then v else dict_get d k' dflt)"
  by (simp add: dict_get_def update_conv')

lemma dict_getitem_Inr: "dict_getitem d k = Inr v \<longleftrightarrow> map_of d k = Some v"
  by (simp add: dict_getitem_def split: option.splits)

lemma dict_getitem_Inr_get: "dict_getitem d k = Inr v \<Longrightarrow> dict_get d k dflt = v"
  by (simp add: dict_getitem_def dict_get_def split: option.splits)

lemma dict_getitem_key: "k \<in> fst ` set d \<Longrightarrow> \<exists>v. dict_getitem d k = Inr v"
  by (cases "map_of d k") (auto simp: dict_getitem_def map_of_eq_None_iff)

lemma dict_getitem_InrD: "dict_getitem d k = Inr v \<Longrightarrow> k \<in> fst ` set d"
  by (auto simp: dict_getitem_def split: option.splits dest: map_of_SomeD intro: rev_image_eqI)

lemma keys_update: "fst ` set (AList.update k v d) = insert k (fst ` set d)"
  by (simp add: dom_update)

lemma count_of_update:
  "count_of (AList.update s (AList.update t n cnts) c) s' t' =
     (if s' = s then (if t' = t then n else dict_get cnts t' 0) else count_of c s' t')"
  by (simp add: count_of_def dict_get_update)

lemma count_of_getitem: "dict_getitem c s = Inr cnts \<Longrightarrow> count_of c s t = dict_get cnts t 0"
  by (simp add: count_of_def dict_getitem_Inr_get)

lemma count_dec_Inr:
  assumes "count_dec c s t = Inr c'"
  shows "count_of c' s' t' = count_of c s' t' - of_bool (s' = s \<and> t' = t)"
    and "fst ` set c' = fst ` set c"
proof -
  from assms obtain cnts n where g: "dict_getitem c s = Inr cnts" "dict_getitem cnts t = Inr n"
    and c': "c' = AList.update s (AList.update t (n - 1) cnts) c"
    by (auto simp: count_dec_def split: sum.splits)
  show "count_of c' s' t' = count_of c s' t' - of_bool (s' = s \<and> t' = t)"
    using g by (simp add: c' count_of_update count_of_getitem dict_getitem_Inr_get)
  show "fst ` set c' = fst ` set c"
    using dict_getitem_InrD[OF g(1)] by (auto simp: c' keys_update)
qed

lemma count_inc_Inr:
  assumes "count_inc c s t = Inr c'"
  shows "count_of c' s' t' = count_of c s' t' + of_bool (s' = s \<and> t' = t)"
    and "fst ` set c' = fst ` set c"
proof -
  from assms obtain cnts where g: "dict_getitem c s = Inr cnts"
    and c': "c' = AList.update s (AList.update t (dict_get cnts t 0 + 1) cnts) c"
    by (auto simp: count_inc_def split: sum.splits)
  show "count_of c' s' t' = count_of c s' t' + of_bool (s' = s \<and> t' = t)"
    using g by (simp add: c' count_of_update count_of_getitem)
  show "fst ` set c' = fst ` set c"
    using dict_getitem_InrD[OF g(1)] by (auto simp: c' keys_update)
qed

lemma count_of_nonzero_keys:
  assumes "count_of c s t \<noteq> 0"
  shows "\<exists>cnts n. dict_getitem c s = Inr cnts \<and> dict_getitem cnts t = Inr n"
  using assms
  by (auto simp: count_of_def dict_get_def dict_getitem_def split: option.splits)

lemma count_dec_ok: "count_of c s t \<noteq> 0 \<Longrightarrow> \<exists>c'. count_dec c s t = Inr c'"
  by (auto simp: count_dec_def dest!: count_of_nonzero_keys)

lemma count_inc_ok: "s \<in> fst ` set c \<Longrightarrow> \<exists>c'. count_inc c s t = Inr c'"
  by (auto simp: count_inc_def dest!: dict_getitem_key[of s c])

lemma dict_get_notin: "k \<notin> fst ` set d \<Longrightarrow> dict_get d k dflt = dflt"
proof -
  assume "k \<notin> fst ` set d"
  then have "map_of d k = None" by (simp add: map_of_eq_None_iff)
  then show ?thesis by (simp add: dict_get_def)
qed

subsection \<open>Updates of the region map\<close>

lemma regions_of_update:
  "regions_of (AList.update s (AList.update t l tabs) g) s' t' =
     (if s' = s then (if t' = t then l else dict_get tabs t' []) else regions_of g s' t')"
  by (simp add: regions_of_def dict_get_update)

lemma regions_of_getitem:
  "dict_getitem g s = Inr tabs \<Longrightarrow> regions_of g s t = dict_get tabs t []"
  by (simp add: regions_of_def dict_getitem_Inr_get)

lemma set_update_subset: "set (AList.update k v d) \<subseteq> insert (k, v) (set d)"
  by (induct d) auto

lemma regions_distinct_update:
  assumes "regions_distinct g" "distinct (map fst tabs)"
  shows "regions_distinct (AList.update s tabs g)"
  using assms set_update_subset[of s tabs g]
  by (auto simp: regions_distinct_def)

lemma regions_distinct_getitem:
  assumes "regions_distinct g" "dict_getitem g s = Inr tabs"
  shows "distinct (map fst tabs)"
  using assms
  by (auto simp: regions_distinct_def dict_getitem_Inr dest!: map_of_SomeD)

lemma region_remove_Inr:
  assumes "region_remove g s t r = Inr g'"
  shows "regions_of g' s' t' =
           (if s' = s \<and> t' = t then remove1 r (regions_of g s t) else regions_of g s' t')"
    and "r \<in> set (regions_of g s t)"
    and "fst ` set g' = fst ` set g"
    and "regions_distinct g \<Longrightarrow> regions_distinct g'"
proof -
  from assms obtain tabs l where g: "dict_getitem g s = Inr tabs" "dict_getitem tabs t = Inr l"
    and r: "r \<in> set l"
    and g': "g' = AList.update s (AList.update t (remove1 r l) tabs) g"
    by (auto simp: region_remove_def list_remove_def split: sum.splits if_splits)
  have l: "regions_of g s t = l"
    using g by (simp add: regions_of_getitem dict_getitem_Inr_get)
  show "regions_of g' s' t' =
           (if s' = s \<and> t' = t then remove1 r (regions_of g s t) else regions_of g s' t')"
    using g by (simp add: g' regions_of_update l regions_of_getitem)
  show "r \<in> set (regions_of g s t)" using r l by simp
  show "fst ` set g' = fst ` set g"
    using dict_getitem_InrD[OF g(1)] by (auto simp: g' keys_update)
  show "regions_distinct g'" if "regions_distinct g"
    unfolding g' using that regions_distinct_getitem[OF that g(1)]
    by (intro regions_distinct_update distinct_update)
qed

lemma region_append_Inr:
  assumes "region_append g s t r = Inr g'"
  shows "regions_of g' s' t' =
           (if s' = s \<and> t' = t then regions_of g s t @ [r] else regions_of g s' t')"
    and "fst ` set g' = fst ` set g"
    and "regions_distinct g \<Longrightarrow> regions_distinct g'"
proof -
  from assms obtain tabs where g: "dict_getitem g s = Inr tabs"
    by (auto simp: region_append_def split: sum.splits)
  define tabs' where "tabs' = (if t \<in> set (map fst tabs) then tabs else AList.update t [] tabs)"
  have same: "dict_get tabs' t'' [] = dict_get tabs t'' []" for t''
  proof (cases "t \<in> fst ` set tabs")
    case True
    then show ?thesis by (simp add: tabs'_def)
  next
    case False
    then have "dict_get tabs t [] = []" by (rule dict_get_notin)
    with False show ?thesis by (simp add: tabs'_def dict_get_update)
  qed
  from assms g obtain l where l: "dict_getitem tabs' t = Inr l"
    and g': "g' = AList.update s (AList.update t (l @ [r]) tabs') g"
    by (auto simp: region_append_def tabs'_def Let_def split: sum.splits if_splits)
  have l': "regions_of g s t = l"
    using g l same[of t] by (simp add: regions_of_getitem dict_getitem_Inr_get)
  show "regions_of g' s' t' =
           (if s' = s \<and> t' = t then regions_of g s t @ [r] else regions_of g s' t')"
    using g by (simp add: g' regions_of_update l' regions_of_getitem same)
  show "fst ` set g' = fst ` set g"
    using dict_getitem_InrD[OF g] by (auto simp: g' keys_update)
  show "regions_distinct g'" if "regions_distinct g"
  proof -
    have "distinct (map fst tabs)" by (rule regions_distinct_getitem[OF that g])
    then have "distinct (map fst tabs')" by (simp add: tabs'_def distinct_update)
    then show ?thesis unfolding g' using that
      by (intro regions_distinct_update distinct_update)
  qed
qed

lemma regions_of_nonempty_keys:
  assumes "regions_of g s t \<noteq> []"
  shows "\<exists>tabs l. dict_getitem g s = Inr tabs \<and> dict_getitem tabs t = Inr l"
proof (cases "map_of g s")
  case None
  with assms show ?thesis by (simp add: regions_of_def dict_get_def)
next
  case (Some tabs)
  show ?thesis
  proof (cases "map_of tabs t")
    case None
    with Some assms show ?thesis by (simp add: regions_of_def dict_get_def)
  next
    case (Some l)
    with \<open>map_of g s = Some tabs\<close> show ?thesis by (simp add: dict_getitem_def)
  qed
qed

lemma region_remove_ok:
  assumes "r \<in> set (regions_of g s t)"
  shows "\<exists>g'. region_remove g s t r = Inr g'"
proof -
  from assms have "regions_of g s t \<noteq> []" by auto
  then obtain tabs l where g: "dict_getitem g s = Inr tabs" "dict_getitem tabs t = Inr l"
    using regions_of_nonempty_keys by blast
  then have "regions_of g s t = l" by (simp add: regions_of_getitem dict_getitem_Inr_get)
  with assms g show ?thesis by (simp add: region_remove_def list_remove_def)
qed

lemma region_append_ok:
  assumes "s \<in> fst ` set g"
  shows "\<exists>g'. region_append g s t r = Inr g'"
proof -
  from dict_getitem_key[OF assms] obtain tabs where g: "dict_getitem g s = Inr tabs" ..
  define tabs' where "tabs' = (if t \<in> set (map fst tabs) then tabs else AList.update t [] tabs)"
  have "t \<in> fst ` set tabs'"
    by (cases "t \<in> fst ` set tabs") (simp_all add: tabs'_def keys_update)
  from dict_getitem_key[OF this] obtain l where l: "dict_getitem tabs' t = Inr l" ..
  have "region_append g s t r =
          (case dict_getitem tabs' t of Inl e \<Rightarrow> Inl e
           | Inr l \<Rightarrow> Inr (AList.update s (AList.update t (l @ [r]) tabs') g))"
    by (simp only: region_append_def g sum.case Let_def tabs'_def)
  then show ?thesis by (simp only: l sum.case) blast
qed

subsection \<open>Consistency of counts and region lists\<close>

lemma consistent_iff:
  "consistent c g \<longleftrightarrow> (\<forall>s t. count_of c s t = int (length (regions_of g s t)))"
proof
  assume a: "consistent c g"
  show "\<forall>s t. count_of c s t = int (length (regions_of g s t))"
  proof (intro allI)
    fix s t
    consider (out) "s \<notin> fst ` set c" "s \<notin> fst ` set g"
      | (inner) "t \<notin> fst ` set (dict_get c s [])" "t \<notin> fst ` set (dict_get g s [])"
      | (inside) "s \<in> set (map fst c @ map fst g)"
          "t \<in> set (map fst (dict_get c s []) @ map fst (dict_get g s []))"
      by auto
    then show "count_of c s t = int (length (regions_of g s t))"
    proof cases
      case out
      then have "dict_get c s [] = []" "dict_get g s [] = []"
        by (simp_all add: dict_get_notin)
      then show ?thesis by (simp add: count_of_def regions_of_def dict_get_def)
    next
      case inner
      then show ?thesis by (simp add: count_of_def regions_of_def dict_get_notin)
    next
      case inside
      with a show ?thesis unfolding consistent_def by blast
    qed
  qed
next
  assume "\<forall>s t. count_of c s t = int (length (regions_of g s t))"
  then show "consistent c g" by (simp add: consistent_def)
qed

lemma length_remove1_int:
  "r \<in> set l \<Longrightarrow> int (length (remove1 r l)) = int (length l) - 1"
proof -
  assume r: "r \<in> set l"
  then have "length l \<ge> 1" by (cases l) auto
  then have "int (length l - 1) = int (length l) - 1" by (simp add: of_nat_diff)
  with r show ?thesis by (simp add: length_remove1)
qed

lemma region_remove_len:
  assumes "region_remove g s t r = Inr g'"
  shows "int (length (regions_of g' s' t')) =
           int (length (regions_of g s' t')) - of_bool (s' = s \<and> t' = t)"
  using region_remove_Inr(2)[OF assms]
  by (simp add: region_remove_Inr(1)[OF assms] length_remove1_int)

lemma region_append_len:
  assumes "region_append g s t r = Inr g'"
  shows "int (length (regions_of g' s' t')) =
           int (length (regions_of g s' t')) + of_bool (s' = s \<and> t' = t)"
  by (simp add: region_append_Inr(1)[OF assms])


subsection \<open>A swap changes counts and list lengths alike, and succeeds on a consistent copy\<close>

lemma bind_err_Inr: "bind_err m f = Inr v \<longleftrightarrow> (\<exists>x. m = Inr x \<and> f x = Inr v)"
  by (cases m) (simp_all add: bind_err_def)

lemma bind_err_simp [simp]: "bind_err (Inr x) f = f x" "bind_err (Inl e) f = Inl e"
  by (simp_all add: bind_err_def)

lemma simulate_swap_Inr:
  assumes "simulate_swap hot c sw = Inr c'"
  shows "count_of c' s t = count_of c s t + swap_delta hot sw s t"
    and "fst ` set c' = fst ` set c"
proof -
  obtain h cr ct d r where sw: "sw = (h, cr, ct, d, r)" by (cases sw) auto
  from assms obtain c1 c2 c3 where
    1: "count_dec c d hot = Inr c1" and 2: "count_inc c1 r hot = Inr c2" and
    3: "count_dec c2 r ct = Inr c3" and 4: "count_inc c3 d ct = Inr c'"
    unfolding simulate_swap_def sw by (auto simp: bind_err_Inr)
  show "count_of c' s t = count_of c s t + swap_delta hot sw s t"
    by (simp only: count_dec_Inr(1)[OF 1] count_inc_Inr(1)[OF 2] count_dec_Inr(1)[OF 3]
        count_inc_Inr(1)[OF 4] swap_delta_def sw prod.case)
  show "fst ` set c' = fst ` set c"
    by (simp add: count_dec_Inr(2)[OF 1] count_inc_Inr(2)[OF 2] count_dec_Inr(2)[OF 3]
        count_inc_Inr(2)[OF 4])
qed

lemma apply_swap_Inr:
  assumes "apply_swap hot st sw = Inr st'"
  shows "simulate_swap hot (stc st) sw = Inr (stc st')"
    and "int (length (regions_of (str_regions st') s t)) =
           int (length (regions_of (str_regions st) s t)) + swap_delta hot sw s t"
    and "regions_distinct (str_regions st) \<Longrightarrow> regions_distinct (str_regions st')"
proof -
  obtain h cr ct d r where sw: "sw = (h, cr, ct, d, r)" by (cases sw) auto
  from assms obtain c1 c2 c3 c4 g1 g2 g3 g4 where
    1: "count_dec (stc st) d hot = Inr c1" and 2: "count_inc c1 r hot = Inr c2" and
    3: "count_dec c2 r ct = Inr c3" and 4: "count_inc c3 d ct = Inr c4" and
    5: "region_remove (str_regions st) d hot h = Inr g1" and
    6: "region_append g1 r hot h = Inr g2" and
    7: "region_remove g2 r ct cr = Inr g3" and
    8: "region_append g3 d ct cr = Inr g4" and
    st': "st' = \<lparr>stc = c4, str_regions = g4\<rparr>"
    unfolding apply_swap_def sw by (auto simp: bind_err_Inr)
  show "simulate_swap hot (stc st) sw = Inr (stc st')"
    by (simp add: simulate_swap_def sw 1 2 3 4 st')
  show "int (length (regions_of (str_regions st') s t)) =
           int (length (regions_of (str_regions st) s t)) + swap_delta hot sw s t"
    by (simp only: st' wstate.simps region_append_len[OF 8] region_remove_len[OF 7]
        region_append_len[OF 6] region_remove_len[OF 5] swap_delta_def sw prod.case)
  show "regions_distinct (str_regions st')" if "regions_distinct (str_regions st)"
    using that
    by (simp add: st' region_remove_Inr(4)[OF 5] region_append_Inr(3)[OF 6]
        region_remove_Inr(4)[OF 7] region_append_Inr(3)[OF 8])
qed

lemma apply_swap_consistent:
  assumes "apply_swap hot st sw = Inr st'" "consistent (stc st) (str_regions st)"
  shows "consistent (stc st') (str_regions st')"
  using assms(2) apply_swap_Inr(2)[OF assms(1)] simulate_swap_Inr(1)[OF apply_swap_Inr(1)[OF assms(1)]]
  by (simp add: consistent_iff)

lemma apply_swap_ok:
  assumes con: "consistent (stc st) (str_regions st)"
    and h: "h \<in> set (regions_of (str_regions st) d hot)"
    and cr: "cr \<in> set (regions_of (str_regions st) r ct)"
    and ne: "ct \<noteq> hot"
  shows "\<exists>st'. apply_swap hot st (h, cr, ct, d, r) = Inr st'"
proof -
  let ?c = "stc st" and ?g = "str_regions st"
  from con have eq: "count_of ?c s t = int (length (regions_of ?g s t))" for s t
    by (simp add: consistent_iff)
  from h have hne: "regions_of ?g d hot \<noteq> []" by auto
  from cr have cne: "regions_of ?g r ct \<noteq> []" by auto
  from hne have "count_of ?c d hot \<noteq> 0" by (simp add: eq)
  from count_dec_ok[OF this] obtain c1 where 1: "count_dec ?c d hot = Inr c1" ..
  from cne have rc: "count_of ?c r ct \<noteq> 0" by (simp add: eq)
  from count_of_nonzero_keys[OF rc] have rk: "r \<in> fst ` set ?c"
    by (auto dest: dict_getitem_InrD)
  from count_of_nonzero_keys[OF \<open>count_of ?c d hot \<noteq> 0\<close>] have dk: "d \<in> fst ` set ?c"
    by (auto dest: dict_getitem_InrD)
  from rk have "r \<in> fst ` set c1" by (simp add: count_dec_Inr(2)[OF 1])
  from count_inc_ok[OF this] obtain c2 where 2: "count_inc c1 r hot = Inr c2" ..
  have "count_of c2 r ct \<noteq> 0"
    using rc ne by (simp add: count_inc_Inr(1)[OF 2] count_dec_Inr(1)[OF 1])
  from count_dec_ok[OF this] obtain c3 where 3: "count_dec c2 r ct = Inr c3" ..
  from dk have "d \<in> fst ` set c3"
    by (simp add: count_dec_Inr(2)[OF 1] count_inc_Inr(2)[OF 2] count_dec_Inr(2)[OF 3])
  from count_inc_ok[OF this] obtain c4 where 4: "count_inc c3 d ct = Inr c4" ..
  from region_remove_ok[OF h] obtain g1 where 5: "region_remove ?g d hot h = Inr g1" ..
  from regions_of_nonempty_keys[OF cne] have rg: "r \<in> fst ` set ?g"
    by (auto dest: dict_getitem_InrD)
  from regions_of_nonempty_keys[OF hne] have dg: "d \<in> fst ` set ?g"
    by (auto dest: dict_getitem_InrD)
  from rg have "r \<in> fst ` set g1" by (simp add: region_remove_Inr(3)[OF 5])
  from region_append_ok[OF this] obtain g2 where 6: "region_append g1 r hot h = Inr g2" ..
  have "cr \<in> set (regions_of g2 r ct)"
    using cr ne by (simp add: region_append_Inr(1)[OF 6] region_remove_Inr(1)[OF 5])
  from region_remove_ok[OF this] obtain g3 where 7: "region_remove g2 r ct cr = Inr g3" ..
  from dg have "d \<in> fst ` set g3"
    by (simp add: region_remove_Inr(3)[OF 5] region_append_Inr(2)[OF 6] region_remove_Inr(3)[OF 7])
  from region_append_ok[OF this] obtain g4 where 8: "region_append g3 d ct cr = Inr g4" ..
  show ?thesis by (simp add: apply_swap_def 1 2 3 4 5 6 7 8)
qed


subsection \<open>Classification and the search never fail on servers of the count map\<close>

lemma classify_spec:
  "set servers \<subseteq> fst ` set c \<Longrightarrow>
     classify hot a c servers = Inr (donors_spec hot a c servers, receivers_spec hot a c servers)"
proof (induction servers)
  case Nil
  then show ?case by (simp add: donors_spec_def receivers_spec_def)
next
  case (Cons s ss)
  then have "s \<in> fst ` set c" by simp
  from dict_getitem_key[OF this] obtain cnts where g: "dict_getitem c s = Inr cnts" ..
  from Cons have r: "classify hot a c ss = Inr (donors_spec hot a c ss, receivers_spec hot a c ss)"
    by simp
  show ?case
    by (simp add: g r Let_def donors_spec_def receivers_spec_def count_of_getitem[OF g])
qed

lemma set_sort_desc: "set (sort_desc xs) = set xs"
  by (simp add: sort_desc_def)

lemma donors_spec_fst: "fst ` set (donors_spec hot a c servers) \<subseteq> set servers"
  by (auto simp: donors_spec_def)

lemma receivers_spec_fst: "fst ` set (receivers_spec hot a c servers) \<subseteq> set servers"
  by (auto simp: receivers_spec_def)

lemma best_cold_ok:
  assumes "dict_getitem c d = Inr dc" "dict_getitem c r = Inr rc"
  shows "\<exists>res. best_cold hot tavg c d r tabs best = Inr res"
  using assms
  by (induction tabs arbitrary: best) (auto simp: Let_def split: list.splits)

lemma best_cold_SomeD:
  "best_cold hot tavg c d r tabs best = Inr (Some (sc, t, r0)) \<Longrightarrow>
     best = Some (sc, t, r0) \<or> (\<exists>regs. (t, r0 # regs) \<in> set tabs \<and> t \<noteq> hot)"
proof (induction tabs arbitrary: best)
  case Nil
  then show ?case by simp
next
  case (Cons p tabs)
  obtain t' regs' where p: "p = (t', regs')" by (cases p)
  show ?case
  proof (cases "regs' = [] \<or> t' = hot")
    case True
    with Cons.prems p have "best_cold hot tavg c d r tabs best = Inr (Some (sc, t, r0))"
      by (auto split: list.splits)
    from Cons.IH[OF this] show ?thesis by auto
  next
    case False
    then obtain r1 rest where regs': "regs' = r1 # rest" by (cases regs') auto
    from Cons.prems p regs' False obtain best' where
      b: "best_cold hot tavg c d r tabs best' = Inr (Some (sc, t, r0))"
      and b': "best' = best \<or> (\<exists>s. best' = Some (s, t', r1))"
      by (auto simp: Let_def split: sum.splits if_splits)
    from Cons.IH[OF b] b' p regs' False show ?thesis by auto
  qed
qed

lemma try_receivers_ok:
  assumes "dict_getitem (stc st) d = Inr dc" "set rs \<subseteq> fst ` set (stc st)"
  shows "\<exists>res. try_receivers hot tavg st d h rs = Inr res"
  using assms(2)
proof (induction rs)
  case Nil
  then show ?case by simp
next
  case (Cons r rs)
  then have "r \<in> fst ` set (stc st)" by simp
  from dict_getitem_key[OF this] obtain rc where "dict_getitem (stc st) r = Inr rc" ..
  from best_cold_ok[OF assms(1) this] obtain res where
    "best_cold hot tavg (stc st) d r (dict_get (str_regions st) r []) None = Inr res" by blast
  with Cons show ?case by (cases res) auto
qed

lemma try_receivers_SomeD:
  "try_receivers hot tavg st d h rs = Inr (Some sw) \<Longrightarrow>
     \<exists>cr ct r regs. sw = (h, cr, ct, d, r) \<and> r \<in> set rs \<and> ct \<noteq> hot \<and>
        (ct, cr # regs) \<in> set (dict_get (str_regions st) r [])"
proof (induction rs)
  case Nil
  then show ?case by simp
next
  case (Cons r rs)
  show ?case
  proof (cases "best_cold hot tavg (stc st) d r (dict_get (str_regions st) r []) None")
    case (Inl e)
    with Cons.prems show ?thesis by simp
  next
    case (Inr res)
    show ?thesis
    proof (cases res)
      case None
      with Inr Cons show ?thesis by auto
    next
      case (Some cand)
      obtain sc ct cr where cand: "cand = (sc, ct, cr)" by (cases cand)
      from Inr Some cand Cons.prems have sw: "sw = (h, cr, ct, d, r)" by simp
      from best_cold_SomeD[OF Inr[unfolded Some cand]] sw show ?thesis by auto
    qed
  qed
qed

lemma try_donors_ok:
  assumes "set ds \<subseteq> fst ` set (stc st)" "set rs \<subseteq> fst ` set (stc st)"
  shows "\<exists>res. try_donors hot tavg st ds rs = Inr res"
  using assms(1)
proof (induction ds)
  case Nil
  then show ?case by simp
next
  case (Cons d ds)
  then have "d \<in> fst ` set (stc st)" by simp
  from dict_getitem_key[OF this] obtain dc where dc: "dict_getitem (stc st) d = Inr dc" ..
  show ?case
  proof (cases "dict_get (dict_get (str_regions st) d []) hot []")
    case Nil
    with Cons show ?thesis by simp
  next
    case (Cons h hs)
    from try_receivers_ok[OF dc assms(2)] obtain res where
      "try_receivers hot tavg st d h rs = Inr res" by blast
    with Cons Cons.IH Cons.prems show ?thesis by (cases res) auto
  qed
qed

lemma try_donors_SomeD:
  "try_donors hot tavg st ds rs = Inr (Some sw) \<Longrightarrow>
     \<exists>h hs cr ct d r regs. sw = (h, cr, ct, d, r) \<and> d \<in> set ds \<and> r \<in> set rs \<and> ct \<noteq> hot \<and>
        regions_of (str_regions st) d hot = h # hs \<and>
        (ct, cr # regs) \<in> set (dict_get (str_regions st) r [])"
proof (induction ds)
  case Nil
  then show ?case by simp
next
  case (Cons d ds)
  show ?case
  proof (cases "dict_get (dict_get (str_regions st) d []) hot []")
    case Nil
    with Cons show ?thesis by auto
  next
    case hh: (Cons h hs)
    show ?thesis
    proof (cases "try_receivers hot tavg st d h rs")
      case (Inl e)
      with hh Cons.prems show ?thesis by simp
    next
      case (Inr res)
      show ?thesis
      proof (cases res)
        case None
        with Inr hh Cons show ?thesis by auto
      next
        case (Some sw')
        with Inr hh Cons.prems have "sw' = sw" by simp
        with try_receivers_SomeD[OF Inr[unfolded Some]] hh show ?thesis
          by (auto simp: regions_of_def)
      qed
    qed
  qed
qed

lemma regions_distinct_lookup:
  assumes "regions_distinct g" "(t, l) \<in> set (dict_get g s [])"
  shows "regions_of g s t = l"
proof (cases "map_of g s")
  case None
  with assms(2) show ?thesis by (simp add: dict_get_def)
next
  case (Some tabs)
  then have "dict_getitem g s = Inr tabs" by (simp add: dict_getitem_def)
  from regions_distinct_getitem[OF assms(1) this] have "distinct (map fst tabs)" .
  moreover from assms(2) Some have "(t, l) \<in> set tabs" by (simp add: dict_get_def)
  ultimately have "map_of tabs t = Some l" by simp
  with Some show ?thesis by (simp add: regions_of_def dict_get_def)
qed


subsection \<open>The loop keeps the working copy well-formed\<close>

lemma plan_step_SomeD:
  assumes "plan_step hot tavg a servers st = Inr (Some (sw, st'))"
  shows "apply_swap hot st sw = Inr st'"
    and "\<exists>ds rs. try_donors hot tavg st ds rs = Inr (Some sw)"
  using assms
  by (auto simp: plan_step_def Let_def split: sum.splits prod.splits if_splits option.splits)

lemma plan_step_ok:
  assumes con: "consistent (stc st) (str_regions st)"
    and dis: "regions_distinct (str_regions st)"
    and srv: "set servers \<subseteq> fst ` set (stc st)"
  shows "\<exists>res. plan_step hot tavg a servers st = Inr res"
proof -
  let ?ds = "sort_desc (donors_spec hot a (stc st) servers)"
  let ?rs = "sort_desc (receivers_spec hot a (stc st) servers)"
  have cl: "classify hot a (stc st) servers =
      Inr (donors_spec hot a (stc st) servers, receivers_spec hot a (stc st) servers)"
    by (rule classify_spec[OF srv])
  have "set (map fst ?ds) \<subseteq> fst ` set (stc st)" "set (map fst ?rs) \<subseteq> fst ` set (stc st)"
    using donors_spec_fst[of hot a "stc st" servers] receivers_spec_fst[of hot a "stc st" servers] srv
    by (auto simp: set_sort_desc)
  from try_donors_ok[OF this] obtain res where
    td: "try_donors hot tavg st (map fst ?ds) (map fst ?rs) = Inr res" by blast
  show ?thesis
  proof (cases res)
    case None
    with cl td show ?thesis by (simp add: plan_step_def Let_def)
  next
    case (Some sw)
    from try_donors_SomeD[OF td[unfolded Some]] obtain h hs cr ct d r regs where
      sw: "sw = (h, cr, ct, d, r)" and ne: "ct \<noteq> hot"
      and hh: "regions_of (str_regions st) d hot = h # hs"
      and cc: "(ct, cr # regs) \<in> set (dict_get (str_regions st) r [])"
      by blast
    from regions_distinct_lookup[OF dis cc]
    have "cr \<in> set (regions_of (str_regions st) r ct)" by simp
    moreover from hh have "h \<in> set (regions_of (str_regions st) d hot)" by simp
    ultimately obtain st' where "apply_swap hot st sw = Inr st'"
      using apply_swap_ok[OF con _ _ ne] sw by blast
    with cl td Some show ?thesis by (simp add: plan_step_def Let_def)
  qed
qed

lemma plan_step_preserves:
  assumes "plan_step hot tavg a servers st = Inr (Some (sw, st'))" "wstate_ok st"
  shows "wstate_ok st'" and "fst ` set (stc st') = fst ` set (stc st)"
proof -
  note ap = plan_step_SomeD(1)[OF assms(1)]
  from assms(2) show "wstate_ok st'"
    by (simp add: wstate_ok_def apply_swap_consistent[OF ap] apply_swap_Inr(3)[OF ap])
  show "fst ` set (stc st') = fst ` set (stc st)"
    by (rule simulate_swap_Inr(2)[OF apply_swap_Inr(1)[OF ap]])
qed

lemma plan_loop_ok:
  assumes "wstate_ok st" "set servers \<subseteq> fst ` set (stc st)"
  shows "\<exists>plan st'. plan_loop k hot tavg a servers st acc = Inr (plan, st') \<and> wstate_ok st'
           \<and> length plan \<le> length acc + k"
  using assms
proof (induction k arbitrary: st acc)
  case 0
  then show ?case by simp
next
  case (Suc k)
  from Suc.prems(1) have "consistent (stc st) (str_regions st)" "regions_distinct (str_regions st)"
    by (simp_all add: wstate_ok_def)
  from plan_step_ok[OF this Suc.prems(2)] obtain res where
    ps: "plan_step hot tavg a servers st = Inr res" ..
  show ?case
  proof (cases res)
    case None
    with ps Suc.prems show ?thesis by simp
  next
    case (Some p)
    obtain sw st1 where p: "p = (sw, st1)" by (cases p)
    note ps' = ps[unfolded Some p]
    from plan_step_preserves[OF ps' Suc.prems(1)] Suc.prems(2)
    have "wstate_ok st1" "set servers \<subseteq> fst ` set (stc st1)" by simp_all
    from Suc.IH[OF this, of "acc @ [sw]"] obtain plan st' where
      "plan_loop k hot tavg a servers st1 (acc @ [sw]) = Inr (plan, st')" "wstate_ok st'"
      "length plan \<le> length (acc @ [sw]) + k" by blast
    with ps' show ?thesis by simp
  qed
qed

text \<open>The loop returns what it was given followed by the swaps its iterations record, and
  it stops early only at an iteration that records none.\<close>

lemma plan_loop_recorded:
  assumes "wstate_ok st" "set servers \<subseteq> fst ` set (stc st)"
  shows "\<exists>p st'. plan_loop k hot tavg a servers st acc = Inr (acc @ p, st')
           \<and> recorded hot tavg a servers st p = Some st'
           \<and> length p \<le> k
           \<and> (length p = k \<or> plan_step hot tavg a servers st' = Inr None)"
  using assms
proof (induction k arbitrary: st acc)
  case 0
  then show ?case by simp
next
  case (Suc k)
  from Suc.prems(1) have "consistent (stc st) (str_regions st)" "regions_distinct (str_regions st)"
    by (simp_all add: wstate_ok_def)
  from plan_step_ok[OF this Suc.prems(2)] obtain res where
    ps: "plan_step hot tavg a servers st = Inr res" ..
  show ?case
  proof (cases res)
    case None
    with ps have "plan_loop (Suc k) hot tavg a servers st acc = Inr (acc @ [], st)"
      "recorded hot tavg a servers st [] = Some st"
      "plan_step hot tavg a servers st = Inr None"
      by simp_all
    then show ?thesis by (intro exI[of _ "[]"] exI[of _ st]) simp
  next
    case (Some q)
    obtain sw st1 where q: "q = (sw, st1)" by (cases q)
    note ps' = ps[unfolded Some q]
    from plan_step_preserves[OF ps' Suc.prems(1)] Suc.prems(2)
    have "wstate_ok st1" "set servers \<subseteq> fst ` set (stc st1)" by simp_all
    from Suc.IH[OF this, of "acc @ [sw]"] obtain p st' where
      l: "plan_loop k hot tavg a servers st1 (acc @ [sw]) = Inr ((acc @ [sw]) @ p, st')"
      and r: "recorded hot tavg a servers st1 p = Some st'"
      and n: "length p \<le> k"
      and e: "length p = k \<or> plan_step hot tavg a servers st' = Inr None" by blast
    from l ps' have "plan_loop (Suc k) hot tavg a servers st acc = Inr (acc @ (sw # p), st')"
      by simp
    moreover from r ps' have "recorded hot tavg a servers st (sw # p) = Some st'" by simp
    ultimately show ?thesis using n e by (intro exI[of _ "sw # p"] exI[of _ st']) simp
  qed
qed

subsection \<open>Replaying a plan conserves the totals\<close>

lemma simulate_append:
  "simulate hot c (xs @ ys) = bind_err (simulate hot c xs) (\<lambda>c'. simulate hot c' ys)"
  by (induction xs arbitrary: c) (auto split: sum.splits)

lemma plan_loop_simulate:
  "plan_loop k hot tavg a servers st acc = Inr (plan, st') \<Longrightarrow>
     \<exists>new. plan = acc @ new \<and> simulate hot (stc st) new = Inr (stc st')"
proof (induction k arbitrary: st acc)
  case 0
  then show ?case by simp
next
  case (Suc k)
  show ?case
  proof (cases "plan_step hot tavg a servers st")
    case (Inl e)
    with Suc.prems show ?thesis by simp
  next
    case (Inr res)
    show ?thesis
    proof (cases res)
      case None
      with Inr Suc.prems show ?thesis by simp
    next
      case (Some p)
      obtain sw st1 where p: "p = (sw, st1)" by (cases p)
      note ps = Inr[unfolded Some p]
      from Suc.prems ps have "plan_loop k hot tavg a servers st1 (acc @ [sw]) = Inr (plan, st')"
        by simp
      from Suc.IH[OF this] obtain new where
        new: "plan = (acc @ [sw]) @ new" "simulate hot (stc st1) new = Inr (stc st')" by blast
      have "simulate_swap hot (stc st) sw = Inr (stc st1)"
        by (rule apply_swap_Inr(1)[OF plan_step_SomeD(1)[OF ps]])
      with new have "simulate hot (stc st) (sw # new) = Inr (stc st')" by simp
      with new(1) show ?thesis by (intro exI[of _ "sw # new"]) simp
    qed
  qed
qed

lemma sum_list_update:
  assumes "map_of c s = Some v"
  shows "sum_list (map f (AList.update s v' c)) = sum_list (map f c) - f (s, v) + (f (s, v') :: int)"
  using assms by (induction c) (auto split: if_splits)

lemma table_total_update:
  assumes "dict_getitem c s = Inr cnts"
  shows "table_total t' (AList.update s (AList.update t n cnts) c) =
           table_total t' c + of_bool (t' = t) * (n - dict_get cnts t 0)"
  using assms
  by (simp add: table_total_def sum_list_update dict_getitem_Inr dict_get_update)

lemma count_dec_total:
  assumes "count_dec c s t = Inr c'"
  shows "table_total t' c' = table_total t' c - of_bool (t' = t)"
proof -
  from assms obtain cnts n where g: "dict_getitem c s = Inr cnts" "dict_getitem cnts t = Inr n"
    and c': "c' = AList.update s (AList.update t (n - 1) cnts) c"
    by (auto simp: count_dec_def split: sum.splits)
  show ?thesis
    by (simp add: c' table_total_update[OF g(1)] dict_getitem_Inr_get[OF g(2)])
qed

lemma count_inc_total:
  assumes "count_inc c s t = Inr c'"
  shows "table_total t' c' = table_total t' c + of_bool (t' = t)"
proof -
  from assms obtain cnts where g: "dict_getitem c s = Inr cnts"
    and c': "c' = AList.update s (AList.update t (dict_get cnts t 0 + 1) cnts) c"
    by (auto simp: count_inc_def split: sum.splits)
  show ?thesis
    by (simp add: c' table_total_update[OF g])
qed

lemma simulate_swap_total:
  assumes "simulate_swap hot c sw = Inr c'"
  shows "table_total t c' = table_total t c"
proof -
  obtain h cr ct d r where sw: "sw = (h, cr, ct, d, r)" by (cases sw) auto
  from assms obtain c1 c2 c3 where
    1: "count_dec c d hot = Inr c1" and 2: "count_inc c1 r hot = Inr c2" and
    3: "count_dec c2 r ct = Inr c3" and 4: "count_inc c3 d ct = Inr c'"
    unfolding simulate_swap_def sw by (auto simp: bind_err_Inr)
  show ?thesis
    by (simp only: count_dec_total[OF 1] count_inc_total[OF 2] count_dec_total[OF 3]
        count_inc_total[OF 4])
qed

lemma simulate_total:
  "simulate hot c p = Inr c' \<Longrightarrow> table_total t c' = table_total t c"
proof (induction p arbitrary: c)
  case Nil
  then show ?case by simp
next
  case (Cons sw p)
  then obtain c1 where 1: "simulate_swap hot c sw = Inr c1" and 2: "simulate hot c1 p = Inr c'"
    by (auto split: sum.splits)
  from Cons.IH[OF 2] simulate_swap_total[OF 1] show ?case by simp
qed

lemma simulate_prefix:
  "simulate hot c (p @ rest) = Inr c' \<Longrightarrow> \<exists>c1. simulate hot c p = Inr c1"
  by (auto simp: simulate_append bind_err_Inr)


subsection \<open>Averages and the balanced case\<close>

lemma table_total_absent:
  "t \<notin> set (all_tables c) \<Longrightarrow> table_total t c = 0"
  by (induction c) (auto simp: all_tables_def table_total_def dict_get_notin)

lemma truediv_0: "truediv 0 n = 0"
  by (simp add: truediv_def float_round_def)

text \<open>The rounding at values Python prints as \<open>1.6666666666666667\<close>,
  \<open>0.6666666666666666\<close>, \<open>0.1\<close>, \<open>0.33333333333333326\<close>, \<open>0.33333333333333337\<close> and
  \<open>2.666666666666667\<close>.\<close>

lemma float_round_examples:
  "truediv 5 3 = 7505999378950827 / 4503599627370496"
  "truediv 2 3 = 6004799503160661 / 9007199254740992"
  "truediv 1 10 = 3602879701896397 / 36028797018963968"
  "float_sub (py_float 2) (truediv 5 3) = 1501199875790165 / 4503599627370496"
  "float_sub (py_float 1) (truediv 2 3) = 3002399751580331 / 9007199254740992"
  "float_add (truediv 5 3) 1 = 3002399751580331 / 1125899906842624"
  "truediv 1 2 = 1 / 2"
  by code_simp+

lemma avg_get_table_avg:
  "c \<noteq> [] \<Longrightarrow> avg_get (table_avg c) t = compute_table_avg t c"
  by (simp add: avg_get_def table_avg_def compute_table_avg_def table_total_absent truediv_0)

lemma count_of_mem:
  assumes "s \<in> fst ` set c"
  shows "\<exists>cnts. (s, cnts) \<in> set c \<and> count_of c s t = dict_get cnts t 0"
proof -
  from dict_getitem_key[OF assms] obtain cnts where g: "dict_getitem c s = Inr cnts" ..
  then have "(s, cnts) \<in> set c" by (auto simp: dict_getitem_Inr dest: map_of_SomeD)
  with count_of_getitem[OF g] show ?thesis by blast
qed

lemma plan_step_balanced:
  assumes "\<forall>sc \<in> set (stc st). of_int (dict_get (snd sc) hot 0) = a"
  shows "plan_step hot tavg a (map fst (stc st)) st = Inr None"
proof -
  have eq: "of_int (count_of (stc st) s hot) = a" if "s \<in> set (map fst (stc st))" for s
  proof -
    from that have "s \<in> fst ` set (stc st)" by simp
    from count_of_mem[OF this] obtain cnts where
      "(s, cnts) \<in> set (stc st)" "count_of (stc st) s hot = dict_get cnts hot 0" by blast
    with assms show ?thesis by force
  qed
  have "filter (\<lambda>s. of_int (count_of (stc st) s hot) > a) (map fst (stc st)) = []"
    unfolding filter_empty_conv using eq by force
  then have d: "donors_spec hot a (stc st) (map fst (stc st)) = []"
    by (simp add: donors_spec_def)
  have cl: "classify hot a (stc st) (map fst (stc st)) =
      Inr (donors_spec hot a (stc st) (map fst (stc st)), receivers_spec hot a (stc st) (map fst (stc st)))"
    by (rule classify_spec) simp
  show ?thesis by (simp add: plan_step_def cl d sort_desc_def)
qed


subsection \<open>The cold candidate is the first maximum; the search finds the first pair\<close>

lemma first_some_Nil [simp]: "first_some f [] = None"
  by (simp add: first_some_def List.map_filter_simps)























subsection \<open>Sorting by descending weight\<close>

lemma sort_desc_sorted: "sorted_wrt (\<lambda>x y. snd x \<ge> snd y) (sort_desc xs)"
proof -
  have "sorted (map (\<lambda>x. - snd x) (sort_desc xs))"
    unfolding sort_desc_def by (rule sorted_sort_key)
  then show ?thesis by (simp add: sorted_map)
qed

lemma sort_desc_stable:
  "filter (\<lambda>x. snd x = w) (sort_desc xs) = filter (\<lambda>x. snd x = w) xs"
  using sort_key_stable[of "\<lambda>x. - snd x" "- w" xs] by (simp add: sort_desc_def)

lemma plan_step_unfold:
  assumes "set servers \<subseteq> fst ` set (stc st)"
  shows "plan_step hot tavg a servers st =
       (let donors = sort_desc (donors_spec hot a (stc st) servers);
            receivers = sort_desc (receivers_spec hot a (stc st) servers) in
        if donors = [] \<or> receivers = [] then Inr None
        else
          (case try_donors hot tavg st (map fst donors) (map fst receivers) of
             Inl e \<Rightarrow> Inl e
           | Inr None \<Rightarrow> Inr None
           | Inr (Some sw) \<Rightarrow>
               (case apply_swap hot st sw of
                  Inl e \<Rightarrow> Inl e
                | Inr st' \<Rightarrow> Inr (Some (sw, st')))))"
  by (simp add: plan_step_def classify_spec[OF assms])


subsection \<open>The planner on the near-balanced snapshot\<close>

lemma osc_avg: "avg_get (table_avg osc_c) ''hot'' = 1/2"
  by code_simp

lemma osc_first:
  "plan_step ''hot'' (table_avg osc_c) (1/2) [''S1'', ''S2''] \<lparr>stc = osc_c, str_regions = osc_g\<rparr>
     = Inr (Some ((''h1'', ''c2'', ''cold'', ''S1'', ''S2''), osc_state [''c1'', ''c2''] False))"
  by code_simp

lemma osc_step1:
  "plan_step ''hot'' (table_avg osc_c) (1/2) [''S1'', ''S2''] (osc_state [''c1'', ''c2''] False)
     = Inr (Some ((''h1'', ''c1'', ''cold'', ''S2'', ''S1''), osc_state [''c2'', ''c1''] True))"
  by code_simp

lemma osc_step2:
  "plan_step ''hot'' (table_avg osc_c) (1/2) [''S1'', ''S2''] (osc_state [''c2'', ''c1''] True)
     = Inr (Some ((''h1'', ''c1'', ''cold'', ''S1'', ''S2''), osc_state [''c2'', ''c1''] False))"
  by code_simp

lemma osc_step3:
  "plan_step ''hot'' (table_avg osc_c) (1/2) [''S1'', ''S2''] (osc_state [''c2'', ''c1''] False)
     = Inr (Some ((''h1'', ''c2'', ''cold'', ''S2'', ''S1''), osc_state [''c1'', ''c2''] True))"
  by code_simp

lemma osc_step4:
  "plan_step ''hot'' (table_avg osc_c) (1/2) [''S1'', ''S2''] (osc_state [''c1'', ''c2''] True)
     = Inr (Some ((''h1'', ''c2'', ''cold'', ''S1'', ''S2''), osc_state [''c1'', ''c2''] False))"
  by code_simp

lemma osc_closed:
  assumes "st \<in> osc_cycle"
  shows "\<exists>sw st'. plan_step ''hot'' (table_avg osc_c) (1/2) [''S1'', ''S2''] st = Inr (Some (sw, st'))
           \<and> st' \<in> osc_cycle"
  using assms osc_step1 osc_step2 osc_step3 osc_step4
  unfolding osc_cycle_def by blast

lemma osc_loop:
  assumes "st \<in> osc_cycle"
  shows "\<exists>plan st'. plan_loop k ''hot'' (table_avg osc_c) (1/2) [''S1'', ''S2''] st acc = Inr (plan, st')
           \<and> length plan = length acc + k"
  using assms
proof (induction k arbitrary: st acc)
  case 0
  then show ?case by simp
next
  case (Suc k)
  from osc_closed[OF Suc.prems] obtain sw st1 where
    ps: "plan_step ''hot'' (table_avg osc_c) (1/2) [''S1'', ''S2''] st = Inr (Some (sw, st1))"
    and st1: "st1 \<in> osc_cycle" by blast
  from Suc.IH[OF st1, of "acc @ [sw]"] ps show ?case by simp
qed

lemma osc_run:
  "\<exists>plan st'. plan_run max_iterations ''hot'' osc_c osc_g = Inr (plan, st')
      \<and> length plan = 1000 \<and> hd plan = (''h1'', ''c2'', ''cold'', ''S1'', ''S2'')"
proof -
  let ?sw = "(''h1'', ''c2'', ''cold'', ''S1'', ''S2'')"
  have "osc_state [''c1'', ''c2''] False \<in> osc_cycle" by (simp add: osc_cycle_def)
  from osc_loop[OF this, of 999 "[?sw]"] obtain plan st' where
    pl: "plan_loop 999 ''hot'' (table_avg osc_c) (1/2) [''S1'', ''S2'']
           (osc_state [''c1'', ''c2''] False) [?sw] = Inr (plan, st')"
    and len: "length plan = 1000" by auto
  from plan_loop_simulate[OF pl] have hd: "hd plan = ?sw" by auto
  have "(1000::nat) = Suc 999" by simp
  then have "plan_run max_iterations ''hot'' osc_c osc_g = Inr (plan, st')"
    unfolding plan_run_def max_iterations_def osc_avg
    by (simp only: plan_loop.simps) (simp add: osc_c_def osc_first[unfolded osc_c_def] pl[unfolded osc_c_def])
  with len hd show ?thesis by blast
qed


subsection \<open>The snapshot built from a dump is well-formed; the exporter writes blocks of four\<close>


lemma analyze_line_ok:
  assumes "snapshot_ok (server_table_count a) (server_table_regions a)"
  shows "snapshot_ok (server_table_count (analyze_line a l)) (server_table_regions (analyze_line a l))"
proof (cases l)
  case (ServerLine ftn enc host port)
  with assms show ?thesis by (simp add: Let_def)
next
  case OtherLine
  with assms show ?thesis by simp
next
  case (StartcodeLine enc startcode)
  show ?thesis
  proof (cases "map_of (region_server_info a) enc")
    case None
    with StartcodeLine assms show ?thesis by simp
  next
    case (Some info)
    obtain table host port where info: "info = (table, host, port)" by (cases info)
    let ?c = "server_table_count a" and ?g = "server_table_regions a"
    let ?cnts = "dict_get ?c host []" and ?tabs = "dict_get ?g host []"
    let ?c' = "AList.update host (AList.update table (dict_get ?cnts table 0 + 1) ?cnts) ?c"
    let ?g' = "AList.update host (AList.update table (dict_get ?tabs table [] @ [enc]) ?tabs) ?g"
    have c': "server_table_count (analyze_line a l) = ?c'"
      and g': "server_table_regions (analyze_line a l) = ?g'"
      by (simp_all add: StartcodeLine Some info Let_def)
    from assms have con: "\<And>s t. count_of ?c s t = int (length (regions_of ?g s t))"
      and dis: "regions_distinct ?g"
      by (simp_all add: snapshot_ok_def consistent_iff)
    have a: "dict_get ?cnts t 0 = count_of ?c host t"
      and b: "dict_get ?tabs t [] = regions_of ?g host t" for t
      by (simp_all add: count_of_def regions_of_def)
    have "count_of ?c' s t = int (length (regions_of ?g' s t))" for s t
      by (simp add: count_of_update regions_of_update a b con)
    then have 1: "consistent ?c' ?g'" by (simp add: consistent_iff)
    have "distinct (map fst ?tabs)"
    proof (cases "map_of ?g host")
      case None
      then show ?thesis by (simp add: dict_get_def)
    next
      case (Some tabs)
      then have "dict_getitem ?g host = Inr tabs" by (simp add: dict_getitem_def)
      from regions_distinct_getitem[OF dis this] Some show ?thesis by (simp add: dict_get_def)
    qed
    then have 2: "regions_distinct ?g'"
      by (intro regions_distinct_update[OF dis] distinct_update)
    from 1 2 show ?thesis by (simp add: c' g' snapshot_ok_def)
  qed
qed

lemma foldl_analyze_ok:
  "snapshot_ok (server_table_count a) (server_table_regions a) \<Longrightarrow>
   snapshot_ok (server_table_count (foldl analyze_line a ls))
               (server_table_regions (foldl analyze_line a ls))"
  by (induction ls arbitrary: a) (simp_all add: analyze_line_ok)

lemma analyze_distribution_ok:
  "snapshot_ok (server_table_count (analyze_distribution ls))
               (server_table_regions (analyze_distribution ls))"
  unfolding analyze_distribution_def
  by (rule foldl_analyze_ok) (simp add: analysis_empty_def snapshot_ok_def consistent_def regions_distinct_def)



lemma nth_concat_blocks:
  assumes "\<And>x. x \<in> set xs \<Longrightarrow> length (f x) = n" "i < length xs" "j < n"
  shows "concat (map f xs) ! (n * i + j) = f (xs ! i) ! j"
  using assms
proof (induction xs arbitrary: i)
  case Nil
  then show ?case by simp
next
  case (Cons x xs)
  show ?case
  proof (cases i)
    case 0
    with Cons.prems show ?thesis by (simp add: nth_append)
  next
    case (Suc i')
    with Cons.prems have "concat (map f xs) ! (n * i' + j) = f (xs ! i') ! j"
      by (intro Cons.IH) auto
    with Suc Cons.prems(1)[of x] show ?thesis by (simp add: nth_append)
  qed
qed

lemma length_concat_blocks:
  "(\<And>x. x \<in> set xs \<Longrightarrow> length (f x) = n) \<Longrightarrow> length (concat (map f xs)) = n * length xs"
  by (induction xs) auto

lemma length_pair_block: "length (pair_block hot fullname i sw) = 4"
  by (cases sw) (simp add: pair_block_def Let_def)


subsection \<open>The planner writes only to objects it allocated\<close>

lemma framesI:
  assumes "\<And>h r h'. hinv n h \<Longrightarrow> m h = (r, h') \<Longrightarrow>
             hinv n h' \<and> same_below n h h' \<and> (\<forall>x. r = Inr x \<longrightarrow> Q x)"
  shows "frames n m Q"
  unfolding frames_def
proof (intro allI impI)
  fix h assume h: "hinv n h"
  obtain r h' where m: "m h = (r, h')" by (cases "m h")
  from assms[OF h m] show "case m h of (r, h') \<Rightarrow>
           hinv n h' \<and> same_below n h h' \<and> (case r of Inl e \<Rightarrow> True | Inr x \<Rightarrow> Q x)"
    by (simp add: m split: sum.splits)
qed

lemma framesD:
  assumes "frames n m Q" "hinv n h" "m h = (r, h')"
  shows "hinv n h'" "same_below n h h'" "r = Inr x \<Longrightarrow> Q x"
  using assms unfolding frames_def by (auto split: sum.splits prod.splits)

lemma same_below_refl: "same_below n h h"
  by (simp add: same_below_def)

lemma same_below_trans: "same_below n h h1 \<Longrightarrow> same_below n h1 h2 \<Longrightarrow> same_below n h h2"
  by (simp add: same_below_def)

lemma frames_return: "Q x \<Longrightarrow> frames n (hreturn x) Q"
  by (rule framesI) (auto simp: hreturn_def same_below_refl)

lemma frames_lift: "(\<And>x. r = Inr x \<Longrightarrow> Q x) \<Longrightarrow> frames n (hlift r) Q"
  by (rule framesI) (auto simp: hlift_def same_below_refl)

lemma frames_bind:
  assumes "frames n m P" "\<And>x. P x \<Longrightarrow> frames n (f x) Q"
  shows "frames n (hbind m f) Q"
proof (rule framesI)
  fix h r h'
  assume h: "hinv n h" and b: "hbind m f h = (r, h')"
  obtain r1 h1 where m: "m h = (r1, h1)" by (cases "m h")
  note d = framesD[OF assms(1) h m]
  show "hinv n h' \<and> same_below n h h' \<and> (\<forall>x. r = Inr x \<longrightarrow> Q x)"
  proof (cases r1)
    case (Inl e)
    with b m have "r = Inl e" "h' = h1" by (simp_all add: hbind_def)
    with d show ?thesis by simp
  next
    case (Inr x)
    with b m have f: "f x h1 = (r, h')" by (simp add: hbind_def)
    from d(3)[OF Inr] have "P x" .
    from framesD[OF assms(2)[OF this] d(1) f] d(2) show ?thesis
      by (auto intro: same_below_trans)
  qed
qed

lemma frames_weaken: "frames n m P \<Longrightarrow> (\<And>x. P x \<Longrightarrow> Q x) \<Longrightarrow> frames n m Q"
  unfolding frames_def by (auto split: sum.splits prod.splits)

lemma frames_read_counts: "frames n (read_counts a) (\<lambda>_. True)"
  by (rule framesI) (auto simp: read_counts_def same_below_refl)

lemma frames_read_regions: "frames n (read_regions a) (\<lambda>_. True)"
  by (rule framesI) (auto simp: read_regions_def same_below_refl)

lemma frames_read_tables: "frames n (read_tables a) (\<lambda>_. True)"
  by (rule framesI) (auto simp: read_tables_def same_below_refl)

lemma frames_read_tables_fresh:
  assumes "n \<le> a"
  shows "frames n (read_tables a) (fresh_refs n)"
proof (rule framesI)
  fix h r h'
  assume h: "hinv n h" and r: "read_tables a h = (r, h')"
  then have h': "h' = h" by (simp add: read_tables_def)
  have "fresh_refs n tabs" if "r = Inr tabs" for tabs
  proof -
    from that r have "a < length h" "h ! a = Tables tabs"
      by (auto simp: read_tables_def split: if_splits obj.splits)
    with h assms have "fresh_obj n (Tables tabs)" unfolding hinv_def by metis
    then show ?thesis by (simp add: fresh_obj_def)
  qed
  with h h' show "hinv n h' \<and> same_below n h h' \<and> (\<forall>x. r = Inr x \<longrightarrow> fresh_refs n x)"
    by (simp add: same_below_refl)
qed

lemma frames_alloc:
  assumes "fresh_obj n ob"
  shows "frames n (alloc ob) (\<lambda>a. n \<le> a)"
proof (rule framesI)
  fix h r h'
  assume h: "hinv n h" and r: "alloc ob h = (r, h')"
  then have r': "r = Inr (length h)" and h': "h' = h @ [ob]" by (simp_all add: alloc_def)
  from h have le: "n \<le> length h" by (simp add: hinv_def)
  have "hinv n h'"
    unfolding hinv_def h' using h assms le
    by (auto simp: hinv_def nth_append)
  moreover have "same_below n h h'"
    unfolding same_below_def h' using le by (simp add: nth_append)
  ultimately show "hinv n h' \<and> same_below n h h' \<and> (\<forall>x. r = Inr x \<longrightarrow> n \<le> x)"
    using r' le by simp
qed

lemma frames_write:
  assumes "n \<le> a" "fresh_obj n ob"
  shows "frames n (write_obj a ob) (\<lambda>_. True)"
proof (rule framesI)
  fix h r h'
  assume h: "hinv n h" and r: "write_obj a ob h = (r, h')"
  then have h': "h' = h[a := ob]" by (simp add: write_obj_def)
  have "hinv n h'"
  proof -
    have "fresh_obj n (h[a := ob] ! aa)" if "n \<le> aa" "aa < length h" for aa
      using that h assms(2) by (cases "aa = a") (simp_all add: hinv_def)
    with h show ?thesis unfolding hinv_def h' by simp
  qed
  moreover have "same_below n h h'"
    unfolding same_below_def h' using assms(1) by simp
  ultimately show "hinv n h' \<and> same_below n h h' \<and> (\<forall>x. r = Inr x \<longrightarrow> True)"
    by simp
qed

lemma fresh_refs_Nil: "fresh_refs n []"
  by (simp add: fresh_refs_def)

lemma fresh_refs_Cons: "fresh_refs n ((k, a) # refs) \<longleftrightarrow> n \<le> a \<and> fresh_refs n refs"
  by (simp add: fresh_refs_def)

lemma fresh_refs_update: "fresh_refs n refs \<Longrightarrow> n \<le> a \<Longrightarrow> fresh_refs n (AList.update k a refs)"
  using set_update_subset[of k a refs] by (auto simp: fresh_refs_def)

lemma fresh_refs_getitem: "fresh_refs n refs \<Longrightarrow> dict_getitem refs k = Inr a \<Longrightarrow> n \<le> a"
  by (auto simp: fresh_refs_def dict_getitem_Inr dest!: map_of_SomeD intro: rev_image_eqI)

lemma frames_copy_counts: "frames n (copy_counts sc) (fresh_refs n)"
proof (induction sc)
  case Nil
  show ?case by (simp add: frames_return fresh_refs_Nil)
next
  case (Cons p sc)
  obtain s a where p: "p = (s, a)" by (cases p)
  show ?case unfolding p copy_counts.simps
    by (intro frames_bind[OF frames_read_counts] frames_bind[OF frames_alloc]
        frames_bind[OF Cons] frames_return)
       (simp_all add: fresh_obj_def fresh_refs_Cons)
qed

lemma frames_copy_lists: "frames n (copy_lists tabs) (fresh_refs n)"
proof (induction tabs)
  case Nil
  show ?case by (simp add: frames_return fresh_refs_Nil)
next
  case (Cons p tabs)
  obtain t la where p: "p = (t, la)" by (cases p)
  show ?case unfolding p copy_lists.simps
    by (intro frames_bind[OF frames_read_regions] frames_bind[OF frames_alloc]
        frames_bind[OF Cons] frames_return)
       (simp_all add: fresh_obj_def fresh_refs_Cons)
qed

lemma frames_copy_tables: "frames n (copy_tables sr) (fresh_refs n)"
proof (induction sr)
  case Nil
  show ?case by (simp add: frames_return fresh_refs_Nil)
next
  case (Cons p sr)
  obtain s a where p: "p = (s, a)" by (cases p)
  show ?case unfolding p copy_tables.simps
    by (intro frames_bind[OF frames_read_tables] frames_bind[OF frames_copy_lists]
        frames_bind[OF frames_alloc] frames_bind[OF Cons] frames_return)
       (simp_all add: fresh_obj_def fresh_refs_Cons)
qed

lemma frames_view_counts: "frames n (view_counts refs) (\<lambda>_. True)"
proof (induction refs)
  case Nil
  show ?case by (simp add: frames_return)
next
  case (Cons p refs)
  obtain s a where p: "p = (s, a)" by (cases p)
  show ?case unfolding p view_counts.simps
    by (intro frames_bind[OF frames_read_counts] frames_bind[OF Cons] frames_return) simp
qed

lemma frames_view_lists: "frames n (view_lists tabs) (\<lambda>_. True)"
proof (induction tabs)
  case Nil
  show ?case by (simp add: frames_return)
next
  case (Cons p tabs)
  obtain t la where p: "p = (t, la)" by (cases p)
  show ?case unfolding p view_lists.simps
    by (intro frames_bind[OF frames_read_regions] frames_bind[OF Cons] frames_return) simp
qed

lemma frames_view_regions: "frames n (view_regions refs) (\<lambda>_. True)"
proof (induction refs)
  case Nil
  show ?case by (simp add: frames_return)
next
  case (Cons p refs)
  obtain s a where p: "p = (s, a)" by (cases p)
  show ?case unfolding p view_regions.simps
    by (intro frames_bind[OF frames_read_tables] frames_bind[OF frames_view_lists]
        frames_bind[OF Cons] frames_return) simp
qed

lemma frames_getitem_fresh:
  "fresh_refs n refs \<Longrightarrow> frames n (hlift (dict_getitem refs k)) (\<lambda>a. n \<le> a)"
  by (rule frames_lift) (rule fresh_refs_getitem)

lemma frames_lift_any: "frames n (hlift r) (\<lambda>_. True)"
  by (rule frames_lift) simp

lemma frames_count_dec:
  assumes "fresh_refs n wc"
  shows "frames n (heap_count_dec wc s t) (\<lambda>_. True)"
  unfolding heap_count_dec_def
  by (intro frames_bind[OF frames_getitem_fresh[OF assms]] frames_bind[OF frames_read_counts]
      frames_bind[OF frames_lift_any] frames_write)
     (simp_all add: fresh_obj_def)

lemma frames_count_inc:
  assumes "fresh_refs n wc"
  shows "frames n (heap_count_inc wc s t) (\<lambda>_. True)"
  unfolding heap_count_inc_def
  by (intro frames_bind[OF frames_getitem_fresh[OF assms]] frames_bind[OF frames_read_counts]
      frames_write)
     (simp_all add: fresh_obj_def)

lemma frames_region_remove:
  assumes "fresh_refs n wr"
  shows "frames n (heap_region_remove wr s t r) (\<lambda>_. True)"
  unfolding heap_region_remove_def
proof (rule frames_bind[OF frames_getitem_fresh[OF assms]])
  fix a assume a: "n \<le> a"
  show "frames n (hbind (read_tables a) (\<lambda>tabs.
     hbind (hlift (dict_getitem tabs t)) (\<lambda>la.
     hbind (read_regions la) (\<lambda>l.
     hbind (hlift (list_remove l r)) (\<lambda>l'.
     write_obj la (Regions l')))))) (\<lambda>_. True)"
  proof (rule frames_bind[OF frames_read_tables_fresh[OF a]])
    fix tabs :: "(table \<times> addr) list" assume tabs: "fresh_refs n tabs"
    show "frames n (hbind (hlift (dict_getitem tabs t)) (\<lambda>la.
       hbind (read_regions la) (\<lambda>l.
       hbind (hlift (list_remove l r)) (\<lambda>l'.
       write_obj la (Regions l'))))) (\<lambda>_. True)"
      by (intro frames_bind[OF frames_getitem_fresh[OF tabs]] frames_bind[OF frames_read_regions]
          frames_bind[OF frames_lift_any] frames_write)
         (simp_all add: fresh_obj_def)
  qed
qed

lemma frames_region_append:
  assumes "fresh_refs n wr"
  shows "frames n (heap_region_append wr s t r) (\<lambda>_. True)"
  unfolding heap_region_append_def
proof (rule frames_bind[OF frames_getitem_fresh[OF assms]])
  fix a assume a: "n \<le> a"
  show "frames n (hbind (read_tables a) (\<lambda>tabs.
     hbind (if t \<in> set (map fst tabs) then hreturn ()
            else hbind (alloc (Regions [])) (\<lambda>la.
                 write_obj a (Tables (AList.update t la tabs)))) (\<lambda>_.
     hbind (read_tables a) (\<lambda>tabs'.
     hbind (hlift (dict_getitem tabs' t)) (\<lambda>la.
     hbind (read_regions la) (\<lambda>l.
     write_obj la (Regions (l @ [r])))))))) (\<lambda>_. True)"
  proof (rule frames_bind[OF frames_read_tables_fresh[OF a]])
    fix tabs :: "(table \<times> addr) list" assume tabs: "fresh_refs n tabs"
    have 1: "frames n (if t \<in> set (map fst tabs) then hreturn ()
            else hbind (alloc (Regions [])) (\<lambda>la.
                 write_obj a (Tables (AList.update t la tabs)))) (\<lambda>_. True)"
    proof (cases "t \<in> set (map fst tabs)")
      case True
      then show ?thesis by (simp add: frames_return)
    next
      case False
      have "frames n (hbind (alloc (Regions [])) (\<lambda>la.
                 write_obj a (Tables (AList.update t la tabs)))) (\<lambda>_. True)"
        by (intro frames_bind[OF frames_alloc] frames_write a)
           (simp_all add: fresh_obj_def fresh_refs_update tabs)
      with False show ?thesis by simp
    qed
    have 2: "frames n (hbind (read_tables a) (\<lambda>tabs'.
       hbind (hlift (dict_getitem tabs' t)) (\<lambda>la.
       hbind (read_regions la) (\<lambda>l.
       write_obj la (Regions (l @ [r])))))) (\<lambda>_. True)"
    proof (rule frames_bind[OF frames_read_tables_fresh[OF a]])
      fix tabs' :: "(table \<times> addr) list" assume tabs': "fresh_refs n tabs'"
      show "frames n (hbind (hlift (dict_getitem tabs' t)) (\<lambda>la.
         hbind (read_regions la) (\<lambda>l.
         write_obj la (Regions (l @ [r]))))) (\<lambda>_. True)"
        by (intro frames_bind[OF frames_getitem_fresh[OF tabs']] frames_bind[OF frames_read_regions]
            frames_write)
           (simp_all add: fresh_obj_def)
    qed
    from 1 2 show "frames n (hbind (if t \<in> set (map fst tabs) then hreturn ()
            else hbind (alloc (Regions [])) (\<lambda>la.
                 write_obj a (Tables (AList.update t la tabs)))) (\<lambda>_.
       hbind (read_tables a) (\<lambda>tabs'.
       hbind (hlift (dict_getitem tabs' t)) (\<lambda>la.
       hbind (read_regions la) (\<lambda>l.
       write_obj la (Regions (l @ [r]))))))) (\<lambda>_. True)"
      by (rule frames_bind)
  qed
qed

lemma frames_apply_swap:
  assumes "fresh_refs n wc" "fresh_refs n wr"
  shows "frames n (heap_apply_swap hot wc wr sw) (\<lambda>_. True)"
proof -
  obtain h cr ct d r where sw: "sw = (h, cr, ct, d, r)" by (cases sw) auto
  show ?thesis unfolding heap_apply_swap_def sw prod.case
    by (intro frames_bind[OF frames_count_dec[OF assms(1)]]
        frames_bind[OF frames_count_inc[OF assms(1)]]
        frames_bind[OF frames_region_remove[OF assms(2)]]
        frames_bind[OF frames_region_append[OF assms(2)]]
        frames_region_append[OF assms(2)])
qed

lemma frames_plan_step:
  assumes "fresh_refs n wc" "fresh_refs n wr"
  shows "frames n (heap_plan_step hot tavg a servers wc wr) (\<lambda>_. True)"
  unfolding heap_plan_step_def
proof (intro frames_bind[OF frames_view_counts] frames_bind[OF frames_view_regions]
    frames_bind[OF frames_lift_any])
  fix c g and x :: "(server \<times> rat) list \<times> (server \<times> rat) list"
  obtain ds rs where x: "x = (ds, rs)" by (cases x)
  show "frames n (case x of (ds, rs) \<Rightarrow>
       (let donors = sort_desc ds; receivers = sort_desc rs in
        if donors = [] \<or> receivers = [] then hreturn None
        else
          hbind (hlift (try_donors hot tavg \<lparr>stc = c, str_regions = g\<rparr>
                          (map fst donors) (map fst receivers))) (\<lambda>found.
            case found of
              None \<Rightarrow> hreturn None
            | Some sw \<Rightarrow> hbind (heap_apply_swap hot wc wr sw) (\<lambda>_. hreturn (Some sw)))))
     (\<lambda>_. True)"
  proof (cases "sort_desc ds = [] \<or> sort_desc rs = []")
    case True
    then show ?thesis by (simp add: x Let_def frames_return)
  next
    case False
    have "frames n (case found of None \<Rightarrow> hreturn None
            | Some sw \<Rightarrow> hbind (heap_apply_swap hot wc wr sw) (\<lambda>_. hreturn (Some sw)))
           (\<lambda>_. True)" for found
      by (cases found)
         (auto intro!: frames_return frames_bind[OF frames_apply_swap[OF assms]])
    with False show ?thesis
      by (simp add: x Let_def) (intro frames_bind[OF frames_lift_any])
  qed
qed

lemma heap_plan_loop_Suc:
  "heap_plan_loop (Suc k) hot tavg a servers wc wr acc =
     hbind (heap_plan_step hot tavg a servers wc wr) (\<lambda>found.
       case found of
         None \<Rightarrow> hreturn acc
       | Some sw \<Rightarrow> heap_plan_loop k hot tavg a servers wc wr (acc @ [sw]))"
  by (rule ext) (simp add: hbind_def hreturn_def split: prod.splits sum.splits option.splits)

lemma heap_plan_loop_0: "heap_plan_loop 0 hot tavg a servers wc wr acc = hreturn acc"
  by (rule ext) (simp add: hreturn_def)

lemma frames_plan_loop:
  assumes "fresh_refs n wc" "fresh_refs n wr"
  shows "frames n (heap_plan_loop k hot tavg a servers wc wr acc) (\<lambda>_. True)"
proof (induction k arbitrary: acc)
  case 0
  show ?case by (simp add: heap_plan_loop_0 frames_return)
next
  case (Suc k)
  have "frames n (case found of None \<Rightarrow> hreturn acc
         | Some sw \<Rightarrow> heap_plan_loop k hot tavg a servers wc wr (acc @ [sw])) (\<lambda>_. True)"
    for found
    by (cases found) (simp_all add: frames_return Suc)
  then show ?case unfolding heap_plan_loop_Suc
    by (intro frames_bind[OF frames_plan_step[OF assms]])
qed

lemma frames_compute: "frames n (heap_compute_balance_plan hot sc sr) (\<lambda>_. True)"
proof (cases "map fst sc = []")
  case True
  then show ?thesis by (simp add: heap_compute_balance_plan_def frames_return)
next
  case False
  then show ?thesis unfolding heap_compute_balance_plan_def
    by (simp only: if_False)
       (intro frames_bind[OF frames_copy_counts] frames_bind[OF frames_copy_tables]
         frames_bind[OF frames_view_counts] frames_plan_loop)
qed

lemma hinv_initial: "hinv (length h) h"
  by (auto simp: hinv_def)

lemma compute_same_below:
  "same_below (length h) h (snd (heap_compute_balance_plan hot sc sr h))"
  and compute_length: "length h \<le> length (snd (heap_compute_balance_plan hot sc sr h))"
proof -
  obtain r h' where c: "heap_compute_balance_plan hot sc sr h = (r, h')"
    by (cases "heap_compute_balance_plan hot sc sr h")
  from framesD(1,2)[OF frames_compute hinv_initial c]
  show "same_below (length h) h (snd (heap_compute_balance_plan hot sc sr h))"
    and "length h \<le> length (snd (heap_compute_balance_plan hot sc sr h))"
    by (simp_all add: c hinv_def)
qed

lemma read_counts_extends:
  assumes "read_counts a h = (Inr cs, h1)" "extends h h'"
  shows "read_counts a h' = (Inr cs, h')"
  using assms
  by (auto simp: read_counts_def extends_def same_below_def split: if_splits obj.splits)

lemma read_tables_extends:
  assumes "read_tables a h = (Inr cs, h1)" "extends h h'"
  shows "read_tables a h' = (Inr cs, h')"
  using assms
  by (auto simp: read_tables_def extends_def same_below_def split: if_splits obj.splits)

lemma read_regions_extends:
  assumes "read_regions a h = (Inr cs, h1)" "extends h h'"
  shows "read_regions a h' = (Inr cs, h')"
  using assms
  by (auto simp: read_regions_def extends_def same_below_def split: if_splits obj.splits)

lemma hbind_Inr:
  "hbind m f h = (Inr y, h2) \<longleftrightarrow> (\<exists>x h1. m h = (Inr x, h1) \<and> f x h1 = (Inr y, h2))"
  by (cases "m h") (auto simp: hbind_def split: sum.splits)

lemma read_counts_heap: "read_counts a h = (r, h1) \<Longrightarrow> h1 = h"
  by (auto simp: read_counts_def)

lemma read_tables_heap: "read_tables a h = (r, h1) \<Longrightarrow> h1 = h"
  by (auto simp: read_tables_def)

lemma read_regions_heap: "read_regions a h = (r, h1) \<Longrightarrow> h1 = h"
  by (auto simp: read_regions_def)

lemma view_counts_extends:
  "view_counts refs h = (Inr c, h1) \<Longrightarrow> extends h h' \<Longrightarrow> view_counts refs h' = (Inr c, h')"
proof (induction refs arbitrary: c h1)
  case Nil
  then show ?case by (simp add: hreturn_def)
next
  case (Cons p refs)
  obtain s a where p: "p = (s, a)" by (cases p)
  from Cons.prems(1) obtain cs ha rest hb where
    1: "read_counts a h = (Inr cs, ha)" and 2: "view_counts refs ha = (Inr rest, hb)"
    and c: "c = (s, cs) # rest"
    unfolding p view_counts.simps by (auto simp: hbind_Inr hreturn_def)
  from read_counts_heap[OF 1] 2 have v2: "view_counts refs h = (Inr rest, hb)" by simp
  show ?case unfolding p view_counts.simps
    by (simp add: hbind_def read_counts_extends[OF 1 Cons.prems(2)]
        Cons.IH[OF v2 Cons.prems(2)] hreturn_def c)
qed

lemma view_lists_heap: "view_lists tabs h = (r, h1) \<Longrightarrow> h1 = h"
proof (induction tabs arbitrary: r h1)
  case Nil
  then show ?case by (simp add: hreturn_def)
next
  case (Cons p tabs)
  obtain t la where p: "p = (t, la)" by (cases p)
  obtain r1 ha where 1: "read_regions la h = (r1, ha)" by (cases "read_regions la h")
  note ha = read_regions_heap[OF 1]
  obtain r2 hb where 2: "view_lists tabs h = (r2, hb)" by (cases "view_lists tabs h")
  note hb = Cons.IH[OF 2]
  from Cons.prems show ?case unfolding p view_lists.simps
    using 1 2 ha hb by (auto simp: hbind_def hreturn_def split: sum.splits)
qed

lemma view_lists_extends:
  "view_lists tabs h = (Inr c, h1) \<Longrightarrow> extends h h' \<Longrightarrow> view_lists tabs h' = (Inr c, h')"
proof (induction tabs arbitrary: c h1)
  case Nil
  then show ?case by (simp add: hreturn_def)
next
  case (Cons p tabs)
  obtain t la where p: "p = (t, la)" by (cases p)
  from Cons.prems(1) obtain l ha rest hb where
    1: "read_regions la h = (Inr l, ha)" and 2: "view_lists tabs ha = (Inr rest, hb)"
    and c: "c = (t, l) # rest"
    unfolding p view_lists.simps by (auto simp: hbind_Inr hreturn_def)
  from read_regions_heap[OF 1] 2 have v2: "view_lists tabs h = (Inr rest, hb)" by simp
  show ?case unfolding p view_lists.simps
    by (simp add: hbind_def read_regions_extends[OF 1 Cons.prems(2)]
        Cons.IH[OF v2 Cons.prems(2)] hreturn_def c)
qed

lemma view_regions_extends:
  "view_regions refs h = (Inr g, h1) \<Longrightarrow> extends h h' \<Longrightarrow> view_regions refs h' = (Inr g, h')"
proof (induction refs arbitrary: g h1)
  case Nil
  then show ?case by (simp add: hreturn_def)
next
  case (Cons p refs)
  obtain s a where p: "p = (s, a)" by (cases p)
  from Cons.prems(1) obtain tabs ha l hb rest hc where
    1: "read_tables a h = (Inr tabs, ha)" and 2: "view_lists tabs ha = (Inr l, hb)"
    and 3: "view_regions refs hb = (Inr rest, hc)" and g: "g = (s, l) # rest"
    unfolding p view_regions.simps by (auto simp: hbind_Inr hreturn_def)
  from read_tables_heap[OF 1] 2 have v2: "view_lists tabs h = (Inr l, hb)" by simp
  from view_lists_heap[OF v2] 3 have v3: "view_regions refs h = (Inr rest, hc)" by simp
  show ?case unfolding p view_regions.simps
    by (simp add: hbind_def read_tables_extends[OF 1 Cons.prems(2)]
        view_lists_extends[OF v2 Cons.prems(2)]
        Cons.IH[OF v3 Cons.prems(2)] hreturn_def g)
qed


subsection \<open>The planner on the store computes the plan of the planner on values\<close>

lemma read_counts_eq:
  "read_counts a h = (Inr cs, h') \<longleftrightarrow> h' = h \<and> a < length h \<and> h ! a = Counts cs"
  by (auto simp: read_counts_def split: obj.splits)

lemma read_tables_eq:
  "read_tables a h = (Inr tabs, h') \<longleftrightarrow> h' = h \<and> a < length h \<and> h ! a = Tables tabs"
  by (auto simp: read_tables_def split: obj.splits)

lemma read_regions_eq:
  "read_regions a h = (Inr l, h') \<longleftrightarrow> h' = h \<and> a < length h \<and> h ! a = Regions l"
  by (auto simp: read_regions_def split: obj.splits)

lemma view_counts_rel:
  "view_counts wc h = (Inr c, h') \<longleftrightarrow> h' = h \<and> list_all2 (counts_rel h) wc c"
proof (induction wc arbitrary: c)
  case Nil
  then show ?case by (auto simp: hreturn_def)
next
  case (Cons p wc)
  obtain s a where p: "p = (s, a)" by (cases p)
  show ?case
    unfolding p view_counts.simps
    by (auto simp: hbind_Inr hreturn_def read_counts_eq Cons.IH list_all2_Cons1 counts_rel_def)
qed

lemma view_lists_rel:
  "view_lists tabs h = (Inr tv, h') \<longleftrightarrow> h' = h \<and> list_all2 (lists_rel h) tabs tv"
proof (induction tabs arbitrary: tv)
  case Nil
  then show ?case by (auto simp: hreturn_def)
next
  case (Cons p tabs)
  obtain t la where p: "p = (t, la)" by (cases p)
  show ?case
    unfolding p view_lists.simps
    by (auto simp: hbind_Inr hreturn_def read_regions_eq Cons.IH list_all2_Cons1 lists_rel_def)
qed

lemma view_regions_rel:
  "view_regions wr h = (Inr g, h') \<longleftrightarrow> h' = h \<and> list_all2 (tables_rel h) wr g"
proof (induction wr arbitrary: g)
  case Nil
  then show ?case by (auto simp: hreturn_def)
next
  case (Cons p wr)
  obtain s a where p: "p = (s, a)" by (cases p)
  show ?case
    unfolding p view_regions.simps
    by (auto simp: hbind_Inr hreturn_def read_tables_eq view_lists_rel Cons.IH list_all2_Cons1
        tables_rel_def)
qed

lemma keyed_fst:
  assumes "keyed R" "list_all2 R xs ys"
  shows "map fst xs = map fst ys"
  using assms(2)
proof (induction xs ys rule: list_all2_induct)
  case Nil
  then show ?case by simp
next
  case (Cons x xs y ys)
  from assms(1) Cons(1) have "fst y = fst x" unfolding keyed_def by blast
  with Cons show ?case by simp
qed

lemma keyed_getitem:
  assumes "keyed R" "list_all2 R xs ys"
  shows "(dict_getitem xs k = Inl KeyError \<and> dict_getitem ys k = Inl KeyError) \<or>
         (\<exists>a b. dict_getitem xs k = Inr a \<and> dict_getitem ys k = Inr b \<and> R (k, a) (k, b)
                \<and> (k, a) \<in> set xs)"
  using assms(2)
proof (induction xs ys rule: list_all2_induct)
  case Nil
  then show ?case by (simp add: dict_getitem_def)
next
  case (Cons x xs y ys)
  obtain k1 a1 where x: "x = (k1, a1)" by (cases x)
  obtain k2 b1 where y: "y = (k2, b1)" by (cases y)
  from Cons(1) assms(1) have k: "k2 = k1" by (auto simp: keyed_def x y)
  show ?case
  proof (cases "k1 = k")
    case True
    with Cons(1) show ?thesis by (auto simp: dict_getitem_def x y k)
  next
    case False
    with Cons(3) show ?thesis by (auto simp: dict_getitem_def x y k)
  qed
qed

lemma keyed_update:
  assumes "keyed R" "list_all2 R xs ys" "dict_getitem xs k = Inr a" "distinct (map snd xs)"
    and new: "R' (k, a) (k, b')"
    and old: "\<And>x y. x \<in> set xs \<Longrightarrow> snd x \<noteq> a \<Longrightarrow> R x y \<Longrightarrow> R' x y"
  shows "list_all2 R' xs (AList.update k b' ys)"
  using assms(2,3,4) old
proof (induction xs ys rule: list_all2_induct)
  case Nil
  then show ?case by (simp add: dict_getitem_def)
next
  case (Cons x xs y ys)
  obtain k1 a1 where x: "x = (k1, a1)" by (cases x)
  obtain k2 b1 where y: "y = (k2, b1)" by (cases y)
  from Cons(1) assms(1) have k: "k2 = k1" by (auto simp: keyed_def x y)
  show ?case
  proof (cases "k1 = k")
    case True
    with Cons.prems(1) have a: "a1 = a" by (simp add: dict_getitem_def x)
    have "list_all2 R' xs ys"
    proof (rule list.rel_mono_strong[OF Cons(2)])
      fix x' y' assume m: "x' \<in> set xs" "R x' y'"
      from m(1) Cons.prems(2) have "snd x' \<noteq> a" by (auto simp: x a)
      with m Cons.prems(3) show "R' x' y'" by simp
    qed
    with True new show ?thesis by (simp add: x y k a)
  next
    case False
    with Cons.prems(1) have g: "dict_getitem xs k = Inr a" by (simp add: dict_getitem_def x)
    then have "(k, a) \<in> set xs" by (auto simp: dict_getitem_Inr dest: map_of_SomeD)
    with Cons.prems(2) have "a1 \<noteq> a" by (force simp: x)
    with Cons.prems(3)[of x y] Cons(1) have h: "R' x y" by (simp add: x)
    from Cons.prems(2) have d: "distinct (map snd xs)" by simp
    have "list_all2 R' xs (AList.update k b' ys)"
      by (rule Cons.IH[OF g d]) (use Cons.prems(3) in auto)
    with False h show ?thesis by (simp add: x y k)
  qed
qed

lemma keyed_counts: "keyed (counts_rel h)"
  by (auto simp: keyed_def counts_rel_def)

lemma keyed_lists: "keyed (lists_rel h)"
  by (auto simp: keyed_def lists_rel_def)

lemma keyed_tables: "keyed (tables_rel h)"
  by (auto simp: keyed_def tables_rel_def)

lemma counts_rel_write:
  assumes "counts_rel h x y" "\<forall>cs. h ! a \<noteq> Counts cs"
  shows "counts_rel (h[a := ob]) x y"
proof -
  from assms have "snd x \<noteq> a" by (cases x; cases y) (auto simp: counts_rel_def)
  with assms(1) show ?thesis by (cases x; cases y) (auto simp: counts_rel_def)
qed

lemma counts_rel_append: "counts_rel h x y \<Longrightarrow> counts_rel (h @ [ob]) x y"
  by (cases x; cases y) (auto simp: counts_rel_def nth_append)

lemma lists_rel_write:
  assumes "lists_rel h x y" "\<forall>l. h ! a \<noteq> Regions l"
  shows "lists_rel (h[a := ob]) x y"
proof -
  from assms have "snd x \<noteq> a" by (cases x; cases y) (auto simp: lists_rel_def)
  with assms(1) show ?thesis by (cases x; cases y) (auto simp: lists_rel_def)
qed

lemma lists_rel_write_other:
  assumes "lists_rel h x y" "snd x \<noteq> a"
  shows "lists_rel (h[a := ob]) x y"
  using assms by (cases x; cases y) (auto simp: lists_rel_def)

lemma lists_rel_append: "lists_rel h x y \<Longrightarrow> lists_rel (h @ [ob]) x y"
  by (cases x; cases y) (auto simp: lists_rel_def nth_append)

lemma tables_rel_write_counts:
  assumes "tables_rel h x y" "h ! a = Counts cs"
  shows "tables_rel (h[a := ob]) x y"
proof -
  obtain s a' where x: "x = (s, a')" by (cases x)
  obtain s' tv where y: "y = (s', tv)" by (cases y)
  from assms(1) obtain tabs where t: "s' = s" "a' < length h" "h ! a' = Tables tabs"
    "list_all2 (lists_rel h) tabs tv"
    by (auto simp: tables_rel_def x y)
  from t(3) assms(2) have ne: "a' \<noteq> a" by auto
  have "list_all2 (lists_rel (h[a := ob])) tabs tv"
    by (rule list_all2_mono[OF t(4)]) (rule lists_rel_write, assumption, simp add: assms(2))
  with t ne show ?thesis by (auto simp: tables_rel_def x y)
qed

lemma tables_rel_append: "tables_rel h x y \<Longrightarrow> tables_rel (h @ [ob]) x y"
proof -
  assume a: "tables_rel h x y"
  obtain s a' where x: "x = (s, a')" by (cases x)
  obtain s' tv where y: "y = (s', tv)" by (cases y)
  from a obtain tabs where t: "s' = s" "a' < length h" "h ! a' = Tables tabs"
    "list_all2 (lists_rel h) tabs tv"
    by (auto simp: tables_rel_def x y)
  have "list_all2 (lists_rel (h @ [ob])) tabs tv"
    by (rule list_all2_mono[OF t(4)]) (rule lists_rel_append)
  with t show ?thesis by (auto simp: tables_rel_def x y nth_append)
qed

lemma list_addrs_cong:
  assumes "\<And>x. x \<in> set wr \<Longrightarrow> h' ! snd x = h ! snd x"
  shows "list_addrs h' wr = list_addrs h wr"
  unfolding list_addrs_def
  by (rule arg_cong[where f = concat], rule map_cong[OF refl]) (use assms in \<open>auto split: prod.splits\<close>)

lemma tables_rel_addr:
  assumes "list_all2 (tables_rel h) wr g" "x \<in> set wr"
  shows "snd x < length h \<and> (\<exists>tabs. h ! snd x = Tables tabs)"
proof -
  from assms(2) obtain i where i: "i < length wr" "x = wr ! i"
    by (auto simp: in_set_conv_nth)
  from list_all2_nthD[OF assms(1) i(1)] i(2) have "tables_rel h x (g ! i)" by simp
  then obtain y where "tables_rel h x y" ..
  then show ?thesis by (cases x; cases y) (auto simp: tables_rel_def)
qed

lemma list_addrs_write:
  assumes "list_all2 (tables_rel h) wr g" "\<forall>tabs. h ! a \<noteq> Tables tabs"
  shows "list_addrs (h[a := ob]) wr = list_addrs h wr"
proof (rule list_addrs_cong)
  fix x assume "x \<in> set wr"
  from tables_rel_addr[OF assms(1) this] assms(2) have "snd x \<noteq> a" by auto
  then show "h[a := ob] ! snd x = h ! snd x" by simp
qed

lemma list_addrs_append:
  assumes "list_all2 (tables_rel h) wr g"
  shows "list_addrs (h @ [ob]) wr = list_addrs h wr"
proof (rule list_addrs_cong)
  fix x assume "x \<in> set wr"
  from tables_rel_addr[OF assms(1) this] show "(h @ [ob]) ! snd x = h ! snd x"
    by (simp add: nth_append)
qed

lemma rep_write_counts:
  assumes r: "rep h wc wr c g" and g: "dict_getitem wc s = Inr a" "h ! a = Counts cs"
  shows "rep (h[a := Counts cs']) wc wr (AList.update s cs' c) g"
proof -
  from r have 1: "list_all2 (counts_rel h) wc c" and 2: "list_all2 (tables_rel h) wr g"
    and d: "distinct (map snd wc)" "distinct (map snd wr)" "distinct (list_addrs h wr)"
    by (simp_all add: rep_def)
  from keyed_getitem[OF keyed_counts 1, of s] g(1) have al: "a < length h"
    by (auto simp: counts_rel_def)
  have "list_all2 (counts_rel (h[a := Counts cs'])) wc (AList.update s cs' c)"
  proof (rule keyed_update[OF keyed_counts 1 g(1) d(1)])
    show "counts_rel (h[a := Counts cs']) (s, a) (s, cs')"
      using al by (simp add: counts_rel_def)
  next
    fix x y assume "x \<in> set wc" "snd x \<noteq> a" "counts_rel h x y"
    then show "counts_rel (h[a := Counts cs']) x y"
      by (cases x; cases y) (auto simp: counts_rel_def)
  qed
  moreover have "list_all2 (tables_rel (h[a := Counts cs'])) wr g"
    by (rule list_all2_mono[OF 2]) (rule tables_rel_write_counts[OF _ g(2)])
  moreover have "list_addrs (h[a := Counts cs']) wr = list_addrs h wr"
    by (rule list_addrs_write[OF 2]) (simp add: g(2))
  ultimately show ?thesis using d by (simp add: rep_def)
qed

lemma rep_getitem_counts:
  assumes "rep h wc wr c g"
  shows "(dict_getitem wc s = Inl KeyError \<and> dict_getitem c s = Inl KeyError) \<or>
         (\<exists>a cs. dict_getitem wc s = Inr a \<and> dict_getitem c s = Inr cs \<and>
                  a < length h \<and> h ! a = Counts cs)"
  using keyed_getitem[OF keyed_counts, of h wc c s] assms
  by (auto simp: rep_def counts_rel_def)

lemma heap_count_dec_sim:
  assumes r: "rep h wc wr c g"
  shows "\<exists>h'. heap_count_dec wc s t h = (map_sum id (\<lambda>_. ()) (count_dec c s t), h') \<and>
           (\<forall>c'. count_dec c s t = Inr c' \<longrightarrow> rep h' wc wr c' g)"
proof -
  from rep_getitem_counts[OF r, of s]
  consider (none) "dict_getitem wc s = Inl KeyError" "dict_getitem c s = Inl KeyError"
    | (some) a cs where "dict_getitem wc s = Inr a" "dict_getitem c s = Inr cs"
        "a < length h" "h ! a = Counts cs"
    by blast
  then show ?thesis
  proof cases
    case none
    then show ?thesis
      by (simp add: heap_count_dec_def count_dec_def hbind_def hlift_def)
  next
    case some
    have rd: "read_counts a h = (Inr cs, h)" using some by (simp add: read_counts_eq)
    show ?thesis
    proof (cases "dict_getitem cs t")
      case (Inl e)
      with some rd show ?thesis
        by (simp add: heap_count_dec_def count_dec_def hbind_def hlift_def)
    next
      case (Inr n)
      with some rd rep_write_counts[OF r some(1,4), of "AList.update t (n - 1) cs"]
      show ?thesis
        by (simp add: heap_count_dec_def count_dec_def hbind_def hlift_def write_obj_def)
    qed
  qed
qed

lemma heap_count_inc_sim:
  assumes r: "rep h wc wr c g"
  shows "\<exists>h'. heap_count_inc wc s t h = (map_sum id (\<lambda>_. ()) (count_inc c s t), h') \<and>
           (\<forall>c'. count_inc c s t = Inr c' \<longrightarrow> rep h' wc wr c' g)"
proof -
  from rep_getitem_counts[OF r, of s]
  consider (none) "dict_getitem wc s = Inl KeyError" "dict_getitem c s = Inl KeyError"
    | (some) a cs where "dict_getitem wc s = Inr a" "dict_getitem c s = Inr cs"
        "a < length h" "h ! a = Counts cs"
    by blast
  then show ?thesis
  proof cases
    case none
    then show ?thesis
      by (simp add: heap_count_inc_def count_inc_def hbind_def hlift_def)
  next
    case some
    have rd: "read_counts a h = (Inr cs, h)" using some by (simp add: read_counts_eq)
    from some rd rep_write_counts[OF r some(1,4), of "AList.update t (dict_get cs t 0 + 1) cs"]
    show ?thesis
      by (simp add: heap_count_inc_def count_inc_def hbind_def hlift_def write_obj_def)
  qed
qed

lemma list_addrs_Nil: "list_addrs h [] = []"
  by (simp add: list_addrs_def)

lemma list_addrs_Cons: "list_addrs h (x # wr) = seg h (snd x) @ list_addrs h wr"
  by (cases x) (simp add: list_addrs_def seg_def)

lemma seg_subset: "x \<in> set wr \<Longrightarrow> set (seg h (snd x)) \<subseteq> set (list_addrs h wr)"
  by (induction wr) (auto simp: list_addrs_Cons list_addrs_Nil)

lemma seg_distinct: "distinct (list_addrs h wr) \<Longrightarrow> x \<in> set wr \<Longrightarrow> distinct (seg h (snd x))"
  by (induction wr) (auto simp: list_addrs_Cons list_addrs_Nil)

lemma seg_disjoint:
  assumes "distinct (list_addrs h wr)" "x1 \<in> set wr" "x2 \<in> set wr" "snd x1 \<noteq> snd x2"
  shows "set (seg h (snd x1)) \<inter> set (seg h (snd x2)) = {}"
  using assms
proof (induction wr)
  case Nil
  then show ?case by simp
next
  case (Cons x wr)
  from Cons.prems(1) have d: "distinct (list_addrs h wr)"
    and dj: "set (seg h (snd x)) \<inter> set (list_addrs h wr) = {}"
    by (simp_all add: list_addrs_Cons)
  consider (both) "x1 \<in> set wr" "x2 \<in> set wr" | (first) "x1 = x" "x2 \<in> set wr"
    | (second) "x2 = x" "x1 \<in> set wr"
    using Cons.prems(2,3,4) by auto
  then show ?case
  proof cases
    case both
    from Cons.IH[OF d both Cons.prems(4)] show ?thesis .
  next
    case first
    with dj seg_subset[OF first(2), of h] show ?thesis by auto
  next
    case second
    with dj seg_subset[OF second(2), of h] show ?thesis by auto
  qed
qed

lemma seg_Tables: "h ! a = Tables tabs \<Longrightarrow> seg h a = map snd tabs"
  by (simp add: seg_def)

lemma update_absent: "k \<notin> fst ` set d \<Longrightarrow> AList.update k v d = d @ [(k, v)]"
  by (induction d) auto

lemma list_addrs_bound:
  assumes "list_all2 (tables_rel h) wr g" "la \<in> set (list_addrs h wr)"
  shows "la < length h \<and> (\<exists>l. h ! la = Regions l)"
  using assms
proof (induction wr g rule: list_all2_induct)
  case Nil
  then show ?case by (simp add: list_addrs_Nil)
next
  case (Cons x wr y g)
  show ?case
  proof (cases "la \<in> set (seg h (snd x))")
    case False
    with Cons show ?thesis by (simp add: list_addrs_Cons)
  next
    case True
    obtain s a where x: "x = (s, a)" by (cases x)
    obtain s' tv where y: "y = (s', tv)" by (cases y)
    from Cons(1) obtain tabs where t: "h ! a = Tables tabs" "list_all2 (lists_rel h) tabs tv"
      by (auto simp: tables_rel_def x y)
    from True t(1) obtain t0 where "(t0, la) \<in> set tabs" by (auto simp: seg_Tables x)
    then obtain i where i: "i < length tabs" "tabs ! i = (t0, la)"
      by (auto simp: in_set_conv_nth)
    from list_all2_nthD[OF t(2) i(1)] i(2) show ?thesis
      by (cases "tv ! i") (auto simp: lists_rel_def)
  qed
qed

lemma rep_getitem_tables:
  assumes "rep h wc wr c g"
  shows "(dict_getitem wr s = Inl KeyError \<and> dict_getitem g s = Inl KeyError) \<or>
         (\<exists>a tabs tv. dict_getitem wr s = Inr a \<and> dict_getitem g s = Inr tv \<and>
                  a < length h \<and> h ! a = Tables tabs \<and> list_all2 (lists_rel h) tabs tv \<and>
                  (s, a) \<in> set wr)"
  using keyed_getitem[OF keyed_tables, of h wr g s] assms
  by (auto simp: rep_def tables_rel_def)

lemma lists_getitem:
  assumes "list_all2 (lists_rel h) tabs tv"
  shows "(dict_getitem tabs t = Inl KeyError \<and> dict_getitem tv t = Inl KeyError) \<or>
         (\<exists>la l. dict_getitem tabs t = Inr la \<and> dict_getitem tv t = Inr l \<and>
                  la < length h \<and> h ! la = Regions l \<and> (t, la) \<in> set tabs)"
  using keyed_getitem[OF keyed_lists assms, of t]
  by (auto simp: lists_rel_def)

lemma rep_write_list:
  assumes r: "rep h wc wr c g"
    and a: "dict_getitem wr s = Inr a" "h ! a = Tables tabs" "(s, a) \<in> set wr"
    and tv: "list_all2 (lists_rel h) tabs tv"
    and la: "dict_getitem tabs t = Inr la" "h ! la = Regions l" "(t, la) \<in> set tabs"
  shows "rep (h[la := Regions l']) wc wr c (AList.update s (AList.update t l' tv) g)"
proof -
  let ?h = "h[la := Regions l']"
  from r have 1: "list_all2 (counts_rel h) wc c" and 2: "list_all2 (tables_rel h) wr g"
    and d: "distinct (map snd wc)" "distinct (map snd wr)" "distinct (list_addrs h wr)"
    by (simp_all add: rep_def)
  from tables_rel_addr[OF 2 a(3)] have al: "a < length h" by simp
  from a(2) la(2) have ne: "a \<noteq> la" by auto
  have lal: "la < length h"
    using lists_getitem[OF tv, of t] la(1) by auto
  have c': "list_all2 (counts_rel ?h) wc c"
    by (rule list_all2_mono[OF 1]) (rule counts_rel_write, assumption, simp add: la(2))
  have ad: "list_addrs ?h wr = list_addrs h wr"
    by (rule list_addrs_write[OF 2]) (simp add: la(2))
  have ds: "distinct (map snd tabs)"
    using seg_distinct[OF d(3) a(3)] by (simp add: seg_Tables[OF a(2)])
  have inner: "list_all2 (lists_rel ?h) tabs (AList.update t l' tv)"
  proof (rule keyed_update[OF keyed_lists tv la(1) ds])
    show "lists_rel ?h (t, la) (t, l')" using lal by (simp add: lists_rel_def)
  next
    fix x y assume "x \<in> set tabs" "snd x \<noteq> la" "lists_rel h x y"
    then show "lists_rel ?h x y" by (intro lists_rel_write_other)
  qed
  have "list_all2 (tables_rel ?h) wr (AList.update s (AList.update t l' tv) g)"
  proof (rule keyed_update[OF keyed_tables 2 a(1) d(2)])
    show "tables_rel ?h (s, a) (s, AList.update t l' tv)"
      using al ne a(2) inner by (auto simp: tables_rel_def)
  next
    fix x y assume x: "x \<in> set wr" "snd x \<noteq> a" "tables_rel h x y"
    obtain s2 a2 where xx: "x = (s2, a2)" by (cases x)
    obtain s3 tv2 where yy: "y = (s3, tv2)" by (cases y)
    from x(3) obtain tabs2 where t2: "s3 = s2" "a2 < length h" "h ! a2 = Tables tabs2"
      "list_all2 (lists_rel h) tabs2 tv2"
      by (auto simp: tables_rel_def xx yy)
    from seg_disjoint[OF d(3) a(3) x(1)] x(2)
    have "snd ` set tabs \<inter> snd ` set tabs2 = {}"
      by (simp add: seg_Tables[OF a(2)] seg_Tables[OF t2(3)] xx)
    moreover from la(3) have "la \<in> snd ` set tabs" by (rule rev_image_eqI) simp
    ultimately have nla: "la \<notin> snd ` set tabs2" by blast
    have "list_all2 (lists_rel ?h) tabs2 tv2"
    proof (rule list.rel_mono_strong[OF t2(4)])
      fix x' y' assume "x' \<in> set tabs2" "lists_rel h x' y'"
      with nla show "lists_rel ?h x' y'" by (intro lists_rel_write_other) auto
    qed
    moreover from t2(3) la(2) have "a2 \<noteq> la" by auto
    ultimately show "tables_rel ?h x y" using t2 by (auto simp: tables_rel_def xx yy)
  qed
  with c' ad d show ?thesis by (simp add: rep_def)
qed

lemma list_addrs_seg: "list_addrs h wr = concat (map (\<lambda>x. seg h (snd x)) wr)"
  by (induction wr) (simp_all add: list_addrs_Nil list_addrs_Cons)

lemma distinct_extend_seg:
  assumes "distinct (map snd wr)" "distinct (concat (map (\<lambda>x. seg h (snd x)) wr))"
    "n \<notin> set (concat (map (\<lambda>x. seg h (snd x)) wr))"
  shows "distinct (concat (map (\<lambda>x. if snd x = a then seg h a @ [n] else seg h (snd x)) wr))
       \<and> set (concat (map (\<lambda>x. if snd x = a then seg h a @ [n] else seg h (snd x)) wr))
           \<subseteq> insert n (set (concat (map (\<lambda>x. seg h (snd x)) wr)))"
  using assms
proof (induction wr)
  case Nil
  then show ?case by simp
next
  case (Cons x wr)
  let ?f = "\<lambda>x. if snd x = a then seg h a @ [n] else seg h (snd x)"
  let ?g = "\<lambda>x. seg h (snd x)"
  from Cons.prems have p: "distinct (map snd wr)" "distinct (concat (map ?g wr))"
    "n \<notin> set (concat (map ?g wr))" "distinct (?g x)" "n \<notin> set (?g x)"
    "set (?g x) \<inter> set (concat (map ?g wr)) = {}" "snd x \<notin> snd ` set wr"
    by auto
  from Cons.IH[OF p(1,2,3)] have IH: "distinct (concat (map ?f wr))"
    "set (concat (map ?f wr)) \<subseteq> insert n (set (concat (map ?g wr)))" by simp_all
  show ?case
  proof (cases "snd x = a")
    case True
    have "?f y = ?g y" if "y \<in> set wr" for y
    proof -
      from that have "snd y \<in> snd ` set wr" by (rule imageI)
      with p(7) True have "snd y \<noteq> a" by metis
      then show ?thesis by simp
    qed
    then have eq: "map ?f wr = map ?g wr" by (intro map_cong) auto
    have c: "concat (map ?f (x # wr)) = (seg h (snd x) @ [n]) @ concat (map ?g wr)"
      using True by (simp only: list.map concat.simps eq) simp
    show ?thesis unfolding c using p(2,3,4,5,6) by auto
  next
    case False
    with p IH show ?thesis by auto
  qed
qed

lemma rep_alloc_list:
  assumes r: "rep h wc wr c g"
    and a: "dict_getitem wr s = Inr a" "h ! a = Tables tabs" "(s, a) \<in> set wr"
    and tv: "list_all2 (lists_rel h) tabs tv"
  shows "rep (list_update (list_update (h @ [Regions []]) a (Tables (tabs @ [(t, length h)])))
                (length h) (Regions l'))
           wc wr c (AList.update s (tv @ [(t, l')]) g)"
proof -
  let ?n = "length h"
  let ?h = "list_update (list_update (h @ [Regions []]) a (Tables (tabs @ [(t, ?n)]))) ?n (Regions l')"
  from r have 1: "list_all2 (counts_rel h) wc c" and 2: "list_all2 (tables_rel h) wr g"
    and d: "distinct (map snd wc)" "distinct (map snd wr)" "distinct (list_addrs h wr)"
    by (simp_all add: rep_def)
  from tables_rel_addr[OF 2 a(3)] have al: "a < ?n" by simp
  have len: "length ?h = Suc ?n" by simp
  have same: "?h ! b = h ! b" if "b < ?n" "b \<noteq> a" for b
    using that by (simp add: nth_append)
  have ha: "?h ! a = Tables (tabs @ [(t, ?n)])" using al by (simp add: nth_append)
  have hn: "?h ! ?n = Regions l'" by simp
  have c': "list_all2 (counts_rel ?h) wc c"
  proof (rule list_all2_mono[OF 1])
    fix x y assume xy: "counts_rel h x y"
    then have "snd x < ?n" "snd x \<noteq> a"
      using a(2) by (cases x; cases y; auto simp: counts_rel_def)+
    from same[OF this] xy show "counts_rel ?h x y"
      by (cases x; cases y) (simp add: counts_rel_def del: nth_list_update)
  qed
  have lst: "lists_rel ?h x y" if "lists_rel h x y" for x y
  proof -
    from that have "snd x < ?n" "snd x \<noteq> a"
      using a(2) by (cases x; cases y; auto simp: lists_rel_def)+
    from same[OF this] that show ?thesis
      by (cases x; cases y) (simp add: lists_rel_def del: nth_list_update)
  qed
  have inner: "list_all2 (lists_rel ?h) (tabs @ [(t, ?n)]) (tv @ [(t, l')])"
    by (intro list_all2_appendI list_all2_mono[OF tv] lst)
       (simp_all add: lists_rel_def hn del: nth_list_update)
  have t': "list_all2 (tables_rel ?h) wr (AList.update s (tv @ [(t, l')]) g)"
  proof (rule keyed_update[OF keyed_tables 2 a(1) d(2)])
    show "tables_rel ?h (s, a) (s, tv @ [(t, l')])"
      using al ha inner by (simp add: tables_rel_def del: nth_list_update)
  next
    fix x y assume x: "x \<in> set wr" "snd x \<noteq> a" "tables_rel h x y"
    obtain s2 a2 where xx: "x = (s2, a2)" by (cases x)
    obtain s3 tv2 where yy: "y = (s3, tv2)" by (cases y)
    from x(3) obtain tabs2 where t2: "s3 = s2" "a2 < length h" "h ! a2 = Tables tabs2"
      "list_all2 (lists_rel h) tabs2 tv2"
      by (auto simp: tables_rel_def xx yy)
    have "list_all2 (lists_rel ?h) tabs2 tv2"
      by (rule list_all2_mono[OF t2(4)]) (rule lst)
    with t2 x(2) same[of a2] show "tables_rel ?h x y"
      by (simp add: tables_rel_def xx yy del: nth_list_update)
  qed
  have segs: "seg ?h (snd x) = (if snd x = a then seg h a @ [?n] else seg h (snd x))"
    if "x \<in> set wr" for x
  proof (cases "snd x = a")
    case True
    then show ?thesis by (simp add: seg_Tables[OF ha] seg_Tables[OF a(2)])
  next
    case False
    with tables_rel_addr[OF 2 that] same[of "snd x"] show ?thesis by (simp add: seg_def)
  qed
  have "n' < ?n" if "n' \<in> set (list_addrs h wr)" for n'
    using list_addrs_bound[OF 2 that] by simp
  then have fresh: "?n \<notin> set (concat (map (\<lambda>x. seg h (snd x)) wr))"
    unfolding list_addrs_seg[symmetric] by blast
  have "list_addrs ?h wr =
      concat (map (\<lambda>x. if snd x = a then seg h a @ [?n] else seg h (snd x)) wr)"
    unfolding list_addrs_seg by (rule arg_cong[where f = concat], rule map_cong[OF refl]) (rule segs)
  with distinct_extend_seg[OF d(2) d(3)[unfolded list_addrs_seg] fresh, of a]
  have "distinct (list_addrs ?h wr)" by simp
  with c' t' d show ?thesis by (simp add: rep_def)
qed

lemma sim_bind:
  assumes "sim m h p R" "\<And>h' x. R h' x \<Longrightarrow> sim (f ()) h' (q x) S"
  shows "sim (hbind m f) h (bind_err p q) S"
proof (cases p)
  case (Inl e)
  with assms(1) show ?thesis by (auto simp: sim_def hbind_def)
next
  case (Inr x)
  with assms(1) obtain h' where m: "m h = (Inr (), h')" and R: "R h' x"
    by (auto simp: sim_def)
  from assms(2)[OF R] Inr m show ?thesis by (auto simp: sim_def hbind_def)
qed

lemma sim_weaken: "sim m h p R \<Longrightarrow> (\<And>h' x. R h' x \<Longrightarrow> S h' x) \<Longrightarrow> sim m h p S"
  by (auto simp: sim_def)

lemma sim_result:
  assumes "sim m h p R"
  shows "sim m h (bind_err p (\<lambda>x. Inr (F x))) (\<lambda>h' y. \<exists>x. y = F x \<and> R h' x)"
  using assms by (cases p) (auto simp: sim_def)

lemma heap_count_dec_sim':
  "rep h wc wr c g \<Longrightarrow> sim (heap_count_dec wc s t) h (count_dec c s t) (\<lambda>h' c'. rep h' wc wr c' g)"
  using heap_count_dec_sim[of h wc wr c g s t] by (simp add: sim_def)

lemma heap_count_inc_sim':
  "rep h wc wr c g \<Longrightarrow> sim (heap_count_inc wc s t) h (count_inc c s t) (\<lambda>h' c'. rep h' wc wr c' g)"
  using heap_count_inc_sim[of h wc wr c g s t] by (simp add: sim_def)

lemma heap_region_remove_sim:
  assumes r: "rep h wc wr c g"
  shows "sim (heap_region_remove wr s t x) h (region_remove g s t x) (\<lambda>h' g'. rep h' wc wr c g')"
proof -
  from rep_getitem_tables[OF r, of s]
  consider (none) "dict_getitem wr s = Inl KeyError" "dict_getitem g s = Inl KeyError"
    | (some) a tabs tv where "dict_getitem wr s = Inr a" "dict_getitem g s = Inr tv"
        "a < length h" "h ! a = Tables tabs" "list_all2 (lists_rel h) tabs tv" "(s, a) \<in> set wr"
    by blast
  then show ?thesis
  proof cases
    case none
    then show ?thesis
      by (simp add: sim_def heap_region_remove_def region_remove_def hbind_def hlift_def)
  next
    case some
    have rd: "read_tables a h = (Inr tabs, h)" using some by (simp add: read_tables_eq)
    from lists_getitem[OF some(5), of t]
    consider (none2) "dict_getitem tabs t = Inl KeyError" "dict_getitem tv t = Inl KeyError"
      | (some2) la l where "dict_getitem tabs t = Inr la" "dict_getitem tv t = Inr l"
          "la < length h" "h ! la = Regions l" "(t, la) \<in> set tabs"
      by blast
    then show ?thesis
    proof cases
      case none2
      with some rd show ?thesis
        by (simp add: sim_def heap_region_remove_def region_remove_def hbind_def hlift_def)
    next
      case some2
      have rl: "read_regions la h = (Inr l, h)" using some2 by (simp add: read_regions_eq)
      show ?thesis
      proof (cases "list_remove l x")
        case (Inl e)
        with some some2 rd rl show ?thesis
          by (simp add: sim_def heap_region_remove_def region_remove_def hbind_def hlift_def)
      next
        case (Inr l')
        from rep_write_list[OF r some(1,4,6,5) some2(1,4,5), of l']
        show ?thesis using some some2 rd rl Inr
          by (simp add: sim_def heap_region_remove_def region_remove_def hbind_def hlift_def
              write_obj_def)
      qed
    qed
  qed
qed

lemma heap_region_append_sim:
  assumes r: "rep h wc wr c g"
  shows "sim (heap_region_append wr s t x) h (region_append g s t x) (\<lambda>h' g'. rep h' wc wr c g')"
proof -
  from rep_getitem_tables[OF r, of s]
  consider (none) "dict_getitem wr s = Inl KeyError" "dict_getitem g s = Inl KeyError"
    | (some) a tabs tv where "dict_getitem wr s = Inr a" "dict_getitem g s = Inr tv"
        "a < length h" "h ! a = Tables tabs" "list_all2 (lists_rel h) tabs tv" "(s, a) \<in> set wr"
    by blast
  then show ?thesis
  proof cases
    case none
    then show ?thesis
      by (simp add: sim_def heap_region_append_def region_append_def hbind_def hlift_def)
  next
    case some
    have rd: "read_tables a h = (Inr tabs, h)" using some by (simp add: read_tables_eq)
    have keys: "map fst tabs = map fst tv" by (rule keyed_fst[OF keyed_lists some(5)])
    show ?thesis
    proof (cases "t \<in> set (map fst tabs)")
      case True
      with keys have tin: "t \<in> set (map fst tv)" by simp
      from True have "dict_getitem tabs t \<noteq> Inl KeyError"
        using dict_getitem_key[of t tabs] by auto
      with lists_getitem[OF some(5), of t] obtain la l where
        some2: "dict_getitem tabs t = Inr la" "dict_getitem tv t = Inr l"
          "la < length h" "h ! la = Regions l" "(t, la) \<in> set tabs"
        by blast
      have rl: "read_regions la h = (Inr l, h)" using some2 by (simp add: read_regions_eq)
      from rep_write_list[OF r some(1,4,6,5) some2(1,4,5), of "l @ [x]"]
      show ?thesis using some some2 rd rl True tin
        by (simp add: sim_def heap_region_append_def region_append_def hbind_def hlift_def
            write_obj_def hreturn_def)
    next
      case False
      with keys have tnin: "t \<notin> set (map fst tv)" by simp
      let ?n = "length h"
      let ?h1 = "h @ [Regions []]"
      let ?h2 = "list_update ?h1 a (Tables (AList.update t ?n tabs))"
      from False have u1: "AList.update t ?n tabs = tabs @ [(t, ?n)]"
        by (intro update_absent) simp
      from tnin have u2: "AList.update t [] tv = tv @ [(t, [])]"
        by (intro update_absent) simp
      from tnin have u3: "AList.update t [x] (tv @ [(t, [])]) = tv @ [(t, [x])]"
        by (induction tv) auto
      have g2: "dict_getitem (tv @ [(t, [])]) t = Inr []"
        using tnin by (simp add: dict_getitem_def map_of_eq_None_iff[THEN iffD2] map_add_def)
      have g1: "dict_getitem (tabs @ [(t, ?n)]) t = Inr ?n"
        using False by (simp add: dict_getitem_def map_of_eq_None_iff[THEN iffD2] map_add_def)
      have rd2: "read_tables a ?h2 = (Inr (tabs @ [(t, ?n)]), ?h2)"
        using some(3) by (simp add: read_tables_eq u1)
      have rl2: "read_regions ?n ?h2 = (Inr [], ?h2)"
        using some(3) by (simp add: read_regions_eq)
      have heap: "heap_region_append wr s t x h =
          (Inr (), list_update ?h2 ?n (Regions ([] @ [x])))"
        using some(1) rd False rd2 rl2 g1
        by (simp add: heap_region_append_def hbind_def hlift_def alloc_def write_obj_def u1)
      have pure: "region_append g s t x = Inr (AList.update s (tv @ [(t, [x])]) g)"
        using some(2) tnin g2 by (simp add: region_append_def u2 u3)
      from rep_alloc_list[OF r some(1,4,6,5), of t "[] @ [x]"]
      show ?thesis
        by (simp add: sim_def heap pure u1)
    qed
  qed
qed

lemma heap_apply_swap_sim:
  assumes r: "rep h wc wr c g"
  shows "sim (heap_apply_swap hot wc wr sw) h (apply_swap hot \<lparr>stc = c, str_regions = g\<rparr> sw)
           (\<lambda>h' st'. rep h' wc wr (stc st') (str_regions st'))"
proof -
  obtain hr cr ct d rc where sw: "sw = (hr, cr, ct, d, rc)" by (cases sw) auto
  have "sim (heap_apply_swap hot wc wr sw) h (apply_swap hot \<lparr>stc = c, str_regions = g\<rparr> sw)
          (\<lambda>h' y. \<exists>x. y = x \<and> rep h' wc wr (stc x) (str_regions x))"
    unfolding heap_apply_swap_def apply_swap_def sw prod.case wstate.simps
    apply (rule sim_bind[OF heap_count_dec_sim'[OF r]])
    apply (rule sim_bind[OF heap_count_inc_sim'], assumption)
    apply (rule sim_bind[OF heap_region_remove_sim], assumption)
    apply (rule sim_bind[OF heap_region_append_sim], assumption)
    apply (rule sim_bind[OF heap_count_dec_sim'], assumption)
    apply (rule sim_bind[OF heap_count_inc_sim'], assumption)
    apply (rule sim_bind[OF heap_region_remove_sim], assumption)
    apply (rule sim_weaken[OF sim_result[OF heap_region_append_sim]], assumption)
    apply auto
    done
  then show ?thesis by (rule sim_weaken) simp
qed

lemma heap_plan_step_sim:
  assumes r: "rep h wc wr (stc st) (str_regions st)"
  shows "\<exists>h'. heap_plan_step hot tavg a servers wc wr h =
                 (map_sum id (map_option fst) (plan_step hot tavg a servers st), h') \<and>
              (\<forall>sw st'. plan_step hot tavg a servers st = Inr (Some (sw, st')) \<longrightarrow>
                 rep h' wc wr (stc st') (str_regions st'))"
proof -
  from r have vc: "view_counts wc h = (Inr (stc st), h)"
    and vr: "view_regions wr h = (Inr (str_regions st), h)"
    by (simp_all add: rep_def view_counts_rel view_regions_rel)
  have st: "\<lparr>stc = stc st, str_regions = str_regions st\<rparr> = st" by simp
  note base = heap_plan_step_def hbind_def vc vr hlift_def hreturn_def Let_def st
  show ?thesis
  proof (cases "classify hot a (stc st) servers")
    case (Inl e)
    then show ?thesis
      by (simp add: base plan_step_def)
  next
    case cl: (Inr dr)
    obtain ds rs where dr: "dr = (ds, rs)" by (cases dr)
    show ?thesis
    proof (cases "sort_desc ds = [] \<or> sort_desc rs = []")
      case True
      with cl dr show ?thesis
        by (auto simp: base plan_step_def)
    next
      case False
      let ?td = "try_donors hot tavg st (map fst (sort_desc ds)) (map fst (sort_desc rs))"
      have ps: "plan_step hot tavg a servers st =
          (case ?td of Inl e \<Rightarrow> Inl e | Inr None \<Rightarrow> Inr None
           | Inr (Some sw) \<Rightarrow> (case apply_swap hot st sw of Inl e \<Rightarrow> Inl e
                                | Inr st' \<Rightarrow> Inr (Some (sw, st'))))"
        using cl dr False by (simp add: plan_step_def Let_def)
      show ?thesis
      proof (cases ?td)
        case (Inl e)
        with cl dr False show ?thesis by (simp add: base ps)
      next
        case td: (Inr found)
        show ?thesis
        proof (cases found)
          case None
          with td cl dr False show ?thesis by (simp add: base ps)
        next
          case (Some sw)
          from heap_apply_swap_sim[OF r, of hot sw] obtain h' where
            ha: "heap_apply_swap hot wc wr sw h = (map_sum id (\<lambda>_. ()) (apply_swap hot st sw), h')"
            and hr: "\<And>st'. apply_swap hot st sw = Inr st' \<Longrightarrow> rep h' wc wr (stc st') (str_regions st')"
            by (auto simp: sim_def st)
          show ?thesis
          proof (cases "apply_swap hot st sw")
            case (Inl e)
            with td Some ha cl dr False show ?thesis
              by (simp add: base ps)
          next
            case ap: (Inr st')
            with td Some ha hr[OF ap] cl dr False show ?thesis
              by (simp add: base ps)
          qed
        qed
      qed
    qed
  qed
qed

lemma heap_plan_loop_sim:
  assumes "rep h wc wr (stc st) (str_regions st)"
  shows "fst (heap_plan_loop k hot tavg a servers wc wr acc h) =
           map_sum id fst (plan_loop k hot tavg a servers st acc)"
  using assms
proof (induction k arbitrary: h st acc)
  case 0
  then show ?case by simp
next
  case (Suc k)
  from heap_plan_step_sim[OF Suc.prems, of hot tavg a servers] obtain h' where
    hs: "heap_plan_step hot tavg a servers wc wr h =
           (map_sum id (map_option fst) (plan_step hot tavg a servers st), h')"
    and hr: "\<And>sw st'. plan_step hot tavg a servers st = Inr (Some (sw, st')) \<Longrightarrow>
               rep h' wc wr (stc st') (str_regions st')"
    by blast
  show ?case
  proof (cases "plan_step hot tavg a servers st")
    case (Inl e)
    with hs show ?thesis by simp
  next
    case (Inr res)
    show ?thesis
    proof (cases res)
      case None
      with Inr hs show ?thesis by simp
    next
      case (Some p)
      obtain sw st' where p: "p = (sw, st')" by (cases p)
      from Suc.IH[OF hr[OF Inr[unfolded Some p]], of "acc @ [sw]"] Inr Some p hs
      show ?thesis by simp
    qed
  qed
qed

lemma counts_rel_app: "counts_rel h x y \<Longrightarrow> counts_rel (h @ xs) x y"
  by (cases x; cases y) (auto simp: counts_rel_def nth_append)

lemma lists_rel_app: "lists_rel h x y \<Longrightarrow> lists_rel (h @ xs) x y"
  by (cases x; cases y) (auto simp: lists_rel_def nth_append)

lemma tables_rel_app:
  assumes "tables_rel h x y"
  shows "tables_rel (h @ xs) x y"
proof -
  obtain s a where x: "x = (s, a)" by (cases x)
  obtain s' tv where y: "y = (s', tv)" by (cases y)
  from assms obtain tabs where t: "s' = s" "a < length h" "h ! a = Tables tabs"
    "list_all2 (lists_rel h) tabs tv"
    by (auto simp: tables_rel_def x y)
  have "list_all2 (lists_rel (h @ xs)) tabs tv"
    by (rule list_all2_mono[OF t(4)]) (rule lists_rel_app)
  with t show ?thesis by (auto simp: tables_rel_def x y nth_append)
qed

lemma copy_counts_rep:
  assumes "list_all2 (counts_rel h) sc c"
  shows "\<exists>wc xs. copy_counts sc h = (Inr wc, h @ xs) \<and> list_all2 (counts_rel (h @ xs)) wc c
           \<and> distinct (map snd wc) \<and> (\<forall>b \<in> snd ` set wc. length h \<le> b)"
  using assms
proof (induction sc arbitrary: h c)
  case Nil
  then show ?case by (auto simp: hreturn_def intro: exI[of _ "[]"])
next
  case (Cons p sc)
  obtain s a where p: "p = (s, a)" by (cases p)
  from Cons.prems obtain cs c' where c: "c = (s, cs) # c'" and
    a: "a < length h" "h ! a = Counts cs" and rest: "list_all2 (counts_rel h) sc c'"
    by (auto simp: list_all2_Cons1 p counts_rel_def)
  let ?h1 = "h @ [Counts cs]"
  have "list_all2 (counts_rel ?h1) sc c'"
    by (rule list_all2_mono[OF rest]) (rule counts_rel_app)
  from Cons.IH[OF this] obtain wc' xs' where
    cp: "copy_counts sc ?h1 = (Inr wc', ?h1 @ xs')"
    and rl: "list_all2 (counts_rel (?h1 @ xs')) wc' c'"
    and ad: "distinct (map snd wc')" "\<forall>b \<in> snd ` set wc'. length ?h1 \<le> b"
    by blast
  have rd: "read_counts a h = (Inr cs, h)" using a by (simp add: read_counts_eq)
  have 1: "copy_counts (p # sc) h = (Inr ((s, length h) # wc'), h @ (Counts cs # xs'))"
    by (simp add: p hbind_def rd alloc_def cp hreturn_def)
  have 2: "list_all2 (counts_rel (h @ (Counts cs # xs'))) ((s, length h) # wc') c"
    using rl by (simp add: c counts_rel_def nth_append)
  have 3: "distinct (map snd ((s, length h) # wc'))"
    "\<forall>b \<in> snd ` set ((s, length h) # wc'). length h \<le> b"
    using ad by fastforce+
  from 1 2 3 show ?case by blast
qed

lemma copy_lists_rep:
  assumes "list_all2 (lists_rel h) tabs tv"
  shows "\<exists>tabs' xs. copy_lists tabs h = (Inr tabs', h @ xs) \<and> list_all2 (lists_rel (h @ xs)) tabs' tv
           \<and> distinct (map snd tabs')
           \<and> (\<forall>b \<in> snd ` set tabs'. length h \<le> b \<and> b < length h + length xs)"
  using assms
proof (induction tabs arbitrary: h tv)
  case Nil
  then show ?case by (auto simp: hreturn_def intro: exI[of _ "[]"])
next
  case (Cons p tabs)
  obtain t la where p: "p = (t, la)" by (cases p)
  from Cons.prems obtain l tv' where c: "tv = (t, l) # tv'" and
    a: "la < length h" "h ! la = Regions l" and rest: "list_all2 (lists_rel h) tabs tv'"
    by (auto simp: list_all2_Cons1 p lists_rel_def)
  let ?h1 = "h @ [Regions l]"
  have "list_all2 (lists_rel ?h1) tabs tv'"
    by (rule list_all2_mono[OF rest]) (rule lists_rel_app)
  from Cons.IH[OF this] obtain tabs' xs' where
    cp: "copy_lists tabs ?h1 = (Inr tabs', ?h1 @ xs')"
    and rl: "list_all2 (lists_rel (?h1 @ xs')) tabs' tv'"
    and ad: "distinct (map snd tabs')"
      "\<forall>b \<in> snd ` set tabs'. length ?h1 \<le> b \<and> b < length ?h1 + length xs'"
    by blast
  have rd: "read_regions la h = (Inr l, h)" using a by (simp add: read_regions_eq)
  have 1: "copy_lists (p # tabs) h = (Inr ((t, length h) # tabs'), h @ (Regions l # xs'))"
    by (simp add: p hbind_def rd alloc_def cp hreturn_def)
  have 2: "list_all2 (lists_rel (h @ (Regions l # xs'))) ((t, length h) # tabs') tv"
    using rl by (simp add: c lists_rel_def nth_append)
  have 3: "distinct (map snd ((t, length h) # tabs'))"
    "\<forall>b \<in> snd ` set ((t, length h) # tabs').
        length h \<le> b \<and> b < length h + length (Regions l # xs')"
    using ad by fastforce+
  from 1 2 3 show ?case by blast
qed

lemma copy_tables_rep:
  assumes "list_all2 (tables_rel h) sr g"
  shows "\<exists>wr xs. copy_tables sr h = (Inr wr, h @ xs) \<and> list_all2 (tables_rel (h @ xs)) wr g
           \<and> distinct (map snd wr) \<and> distinct (list_addrs (h @ xs) wr)
           \<and> (\<forall>a \<in> snd ` set wr \<union> set (list_addrs (h @ xs) wr). length h \<le> a)"
  using assms
proof (induction sr arbitrary: h g)
  case Nil
  then show ?case by (auto simp: hreturn_def list_addrs_Nil intro: exI[of _ "[]"])
next
  case (Cons p sr)
  obtain s a where p: "p = (s, a)" by (cases p)
  from Cons.prems obtain tv g' tabs where g: "g = (s, tv) # g'" and
    a: "a < length h" "h ! a = Tables tabs" "list_all2 (lists_rel h) tabs tv"
    and rest: "list_all2 (tables_rel h) sr g'"
    by (auto simp: list_all2_Cons1 p tables_rel_def)
  from copy_lists_rep[OF a(3)] obtain tabs' xs1 where
    cl: "copy_lists tabs h = (Inr tabs', h @ xs1)"
    and rl: "list_all2 (lists_rel (h @ xs1)) tabs' tv"
    and ad: "distinct (map snd tabs')"
      "\<forall>b \<in> snd ` set tabs'. length h \<le> b \<and> b < length h + length xs1"
    by blast
  let ?a' = "length h + length xs1"
  let ?h2 = "h @ (xs1 @ [Tables tabs'])"
  have "list_all2 (tables_rel ?h2) sr g'"
    by (rule list_all2_mono[OF rest]) (rule tables_rel_app)
  from Cons.IH[OF this] obtain wr' xs3 where
    ct: "copy_tables sr ?h2 = (Inr wr', ?h2 @ xs3)"
    and rt: "list_all2 (tables_rel (?h2 @ xs3)) wr' g'"
    and d1: "distinct (map snd wr')" and d2: "distinct (list_addrs (?h2 @ xs3) wr')"
    and ge: "\<forall>b \<in> snd ` set wr' \<union> set (list_addrs (?h2 @ xs3) wr'). length ?h2 \<le> b"
    by blast
  let ?h3 = "h @ (xs1 @ Tables tabs' # xs3)"
  have h3: "?h2 @ xs3 = ?h3" by simp
  have rd: "read_tables a h = (Inr tabs, h)" using a by (simp add: read_tables_eq)
  have 1: "copy_tables (p # sr) h = (Inr ((s, ?a') # wr'), ?h3)"
    using ct by (simp add: p hbind_def rd cl alloc_def hreturn_def)
  have at: "?h3 ! ?a' = Tables tabs'"
    by (simp add: nth_append)
  have "list_all2 (lists_rel ((h @ xs1) @ (Tables tabs' # xs3))) tabs' tv"
    by (rule list_all2_mono[OF rl]) (rule lists_rel_app)
  then have "list_all2 (lists_rel ?h3) tabs' tv" by simp
  with at have "tables_rel ?h3 (s, ?a') (s, tv)"
    by (auto simp: tables_rel_def)
  with rt have 2: "list_all2 (tables_rel ?h3) ((s, ?a') # wr') g"
    by (simp add: g h3)
  have ge': "?a' < b"
    if "b \<in> snd ` set wr' \<or> b \<in> set (list_addrs ?h3 wr')" for b
  proof -
    from that have "b \<in> snd ` set wr' \<union> set (list_addrs (?h2 @ xs3) wr')"
      by (simp only: h3) blast
    with ge have "length ?h2 \<le> b" by blast
    then show ?thesis by simp
  qed
  have 3: "distinct (map snd ((s, ?a') # wr'))"
    using d1 ge' by fastforce
  have la: "list_addrs ?h3 ((s, ?a') # wr') = map snd tabs' @ list_addrs ?h3 wr'"
    by (simp add: list_addrs_Cons seg_Tables[OF at])
  have 4: "distinct (list_addrs ?h3 ((s, ?a') # wr'))"
  proof -
    have "set (map snd tabs') \<inter> set (list_addrs ?h3 wr') = {}"
    proof (rule ccontr)
      assume "set (map snd tabs') \<inter> set (list_addrs ?h3 wr') \<noteq> {}"
      then obtain b where b: "b \<in> snd ` set tabs'" "b \<in> set (list_addrs ?h3 wr')" by auto
      from ad(2) b(1) have "b < ?a'" by blast
      moreover from ge'[of b] b(2) have "?a' < b" by blast
      ultimately show False by simp
    qed
    moreover from d2 have "distinct (list_addrs ?h3 wr')" by (simp only: h3)
    ultimately show ?thesis unfolding la using ad(1) by simp
  qed
  have 5: "\<forall>b \<in> snd ` set ((s, ?a') # wr') \<union> set (list_addrs ?h3 ((s, ?a') # wr')). length h \<le> b"
  proof
    fix b assume "b \<in> snd ` set ((s, ?a') # wr') \<union> set (list_addrs ?h3 ((s, ?a') # wr'))"
    then consider "b = ?a'" | "b \<in> snd ` set wr'" | "b \<in> snd ` set tabs'"
      | "b \<in> set (list_addrs ?h3 wr')"
      unfolding la by auto
    then show "length h \<le> b"
    proof cases
      case 1 then show ?thesis by simp
    next
      case 2 with ge'[of b] show ?thesis by simp
    next
      case 3 with ad(2) show ?thesis by blast
    next
      case 4 with ge'[of b] show ?thesis by simp
    qed
  qed
  from 1 2 3 4 5 show ?case by blast
qed

lemma heap_compute_refines_rel:
  assumes c: "list_all2 (counts_rel h) sc c" and g: "list_all2 (tables_rel h) sr g"
  shows "fst (heap_compute_balance_plan hot sc sr h) = compute_balance_plan hot c g"
proof -
  have keys: "map fst sc = map fst c" by (rule keyed_fst[OF keyed_counts c])
  show ?thesis
  proof (cases "map fst c = []")
    case True
    with keys show ?thesis
      by (simp add: heap_compute_balance_plan_def compute_balance_plan_def hreturn_def)
  next
    case False
    from copy_counts_rep[OF c] obtain wc xs1 where
      cc: "copy_counts sc h = (Inr wc, h @ xs1)"
      and rc: "list_all2 (counts_rel (h @ xs1)) wc c"
      and ac: "distinct (map snd wc)"
      by blast
    have "list_all2 (tables_rel (h @ xs1)) sr g"
      by (rule list_all2_mono[OF g]) (rule tables_rel_app)
    from copy_tables_rep[OF this] obtain wr xs2 where
      ct: "copy_tables sr (h @ xs1) = (Inr wr, (h @ xs1) @ xs2)"
      and rt: "list_all2 (tables_rel ((h @ xs1) @ xs2)) wr g"
      and d: "distinct (map snd wr)" "distinct (list_addrs ((h @ xs1) @ xs2) wr)"
      by blast
    let ?h2 = "(h @ xs1) @ xs2"
    have rc2: "list_all2 (counts_rel ?h2) wc c"
      by (rule list_all2_mono[OF rc]) (rule counts_rel_app)
    have "list_all2 (counts_rel (h @ (xs1 @ xs2))) sc c"
      by (rule list_all2_mono[OF c]) (rule counts_rel_app)
    then have "list_all2 (counts_rel ?h2) sc c" by simp
    then have vc: "view_counts sc ?h2 = (Inr c, ?h2)" by (simp add: view_counts_rel)
    from ac rc2 rt d have r: "rep ?h2 wc wr (stc \<lparr>stc = c, str_regions = g\<rparr>)
        (str_regions \<lparr>stc = c, str_regions = g\<rparr>)"
      by (simp add: rep_def)
    have "fst (heap_compute_balance_plan hot sc sr h) =
        fst (heap_plan_loop max_iterations hot (table_avg c) (avg_get (table_avg c) hot)
               (map fst sc) wc wr [] ?h2)"
      using False keys cc ct vc by (simp add: heap_compute_balance_plan_def hbind_def)
    also have "\<dots> = map_sum id fst (plan_run max_iterations hot c g)"
      unfolding plan_run_def keys by (rule heap_plan_loop_sim[OF r])
    also have "\<dots> = compute_balance_plan hot c g"
      using False by (auto simp: compute_balance_plan_def split: sum.splits)
    finally show ?thesis .
  qed
qed

lemma heap_compute_refines:
  assumes "fst (view_counts sc h) = Inr c" "fst (view_regions sr h) = Inr g"
  shows "fst (heap_compute_balance_plan hot sc sr h) = compute_balance_plan hot c g"
proof -
  from assms(1) have "list_all2 (counts_rel h) sc c"
    by (cases "view_counts sc h") (simp add: view_counts_rel)
  moreover from assms(2) have "list_all2 (tables_rel h) sr g"
    by (cases "view_regions sr h") (simp add: view_regions_rel)
  ultimately show ?thesis by (rule heap_compute_refines_rel)
qed


section \<open>The claims\<close>



text \<open>\<^bold>\<open>C2\<close> (count conservation). Whatever plan \<open>compute_balance_plan\<close> returns,
  replaying any prefix of it against the initial counts (the replay of \<open>main\<close>, lines
  342-347) succeeds and leaves, for every table, the sum of that table's counts over all
  servers equal to the sum in the original snapshot.\<close>

theorem plan_prefix_conserves_totals:
  assumes "compute_balance_plan hot c g = Inr (p @ rest)"
  shows "\<exists>c'. simulate hot c p = Inr c' \<and> (\<forall>t. table_total t c' = table_total t c)"
proof (cases "map fst c = []")
  case True
  with assms have "p = []" by (simp add: compute_balance_plan_def)
  then show ?thesis by simp
next
  case False
  with assms obtain st where "plan_run max_iterations hot c g = Inr (p @ rest, st)"
    by (auto simp: compute_balance_plan_def split: sum.splits)
  from plan_loop_simulate[OF this[unfolded plan_run_def]]
  have "simulate hot c (p @ rest) = Inr (stc st)" by simp
  from simulate_prefix[OF this] obtain c1 where c1: "simulate hot c p = Inr c1" ..
  from simulate_total[OF c1] c1 show ?thesis by blast
qed

theorem plan_prefix_conserves_totals_witness:
  "\<exists>c'. simulate ''hot'' ex_c [(''h1'', ''c2'', ''cold'', ''S1'', ''S2'')] = Inr c'
        \<and> (\<forall>t. table_total t c' = table_total t ex_c)"
proof -
  have "compute_balance_plan ''hot'' ex_c ex_g = Inr ([(''h1'', ''c2'', ''cold'', ''S1'', ''S2'')] @ [])"
    by code_simp
  from plan_prefix_conserves_totals[OF this] show ?thesis .
qed

text \<open>\<^bold>\<open>C3\<close> (swap atomicity) fails on the code when the hot table's average is not
  a whole number. On the near-balanced snapshot the first swap moves the only hot region
  from a server 0.5 above the average to one 0.5 below it: both deviations are 0.5 before
  and 0.5 after. The next iteration moves the region back, and the planner goes on until
  the iteration cap, returning 1000 swaps.\<close>

theorem near_balanced_plan_oscillates:
  "\<exists>plan c1. compute_balance_plan ''hot'' osc_c osc_g = Inr plan \<and> length plan = 1000
      \<and> hd plan = (''h1'', ''c2'', ''cold'', ''S1'', ''S2'')
      \<and> simulate ''hot'' osc_c [hd plan] = Inr c1
      \<and> hot_deviation ''hot'' osc_c osc_c ''S1'' = 1/2
      \<and> hot_deviation ''hot'' osc_c c1 ''S1'' = 1/2
      \<and> hot_deviation ''hot'' osc_c osc_c ''S2'' = 1/2
      \<and> hot_deviation ''hot'' osc_c c1 ''S2'' = 1/2"
proof -
  let ?sw = "(''h1'', ''c2'', ''cold'', ''S1'', ''S2'')"
  from osc_run obtain plan st' where
    run: "plan_run max_iterations ''hot'' osc_c osc_g = Inr (plan, st')"
    and len: "length plan = 1000" and hd: "hd plan = ?sw" by blast
  from run have cp: "compute_balance_plan ''hot'' osc_c osc_g = Inr plan"
    by (simp add: compute_balance_plan_def osc_c_def)
  have sim: "simulate ''hot'' osc_c [?sw] = Inr (stc (osc_state [''c1'', ''c2''] False))"
    by code_simp
  have d: "hot_deviation ''hot'' osc_c osc_c ''S1'' = 1/2"
    "hot_deviation ''hot'' osc_c (stc (osc_state [''c1'', ''c2''] False)) ''S1'' = 1/2"
    "hot_deviation ''hot'' osc_c osc_c ''S2'' = 1/2"
    "hot_deviation ''hot'' osc_c (stc (osc_state [''c1'', ''c2''] False)) ''S2'' = 1/2"
    by code_simp+
  from cp len hd sim d show ?thesis by auto
qed

text \<open>\<^bold>\<open>C4\<close> (classification). In an iteration on working copy \<open>st\<close>, the donors are
  exactly the servers whose hot count exceeds the fixed average, each with weight count
  minus average, and the receivers exactly those below it, with weight average minus
  count (the differences as Python computes them, in floating point), both in scan
  order; a server at the average is in neither list. \<open>plan_step\<close>
  sorts both lists by descending weight (a stable sort: equal weights keep their scan
  order) before it searches for a pair. The servers scanned are the keys of the count
  map, which no swap changes.\<close>

theorem donors_receivers_classified_sorted:
  assumes "set servers \<subseteq> fst ` set (stc st)"
  shows "classify hot hot_avg (stc st) servers =
           Inr (map (\<lambda>s. (s, float_sub (py_float (count_of (stc st) s hot)) hot_avg))
                  (filter (\<lambda>s. of_int (count_of (stc st) s hot) > hot_avg) servers),
                map (\<lambda>s. (s, float_sub hot_avg (py_float (count_of (stc st) s hot))))
                  (filter (\<lambda>s. of_int (count_of (stc st) s hot) < hot_avg) servers))
       \<and> plan_step hot tavg hot_avg servers st =
           (let donors = sort_desc (donors_spec hot hot_avg (stc st) servers);
                receivers = sort_desc (receivers_spec hot hot_avg (stc st) servers) in
            if donors = [] \<or> receivers = [] then Inr None
            else
              (case try_donors hot tavg st (map fst donors) (map fst receivers) of
                 Inl e \<Rightarrow> Inl e
               | Inr None \<Rightarrow> Inr None
               | Inr (Some sw) \<Rightarrow>
                   (case apply_swap hot st sw of
                      Inl e \<Rightarrow> Inl e
                    | Inr st' \<Rightarrow> Inr (Some (sw, st')))))
       \<and> (\<forall>xs. sorted_wrt (\<lambda>x y. snd x \<ge> snd y) (sort_desc xs)
               \<and> set (sort_desc xs) = set xs
               \<and> (\<forall>w. filter (\<lambda>x. snd x = w) (sort_desc xs) = filter (\<lambda>x. snd x = w) xs))"
  using classify_spec[OF assms, of hot hot_avg] plan_step_unfold[OF assms, of hot tavg hot_avg]
  by (simp add: donors_spec_def receivers_spec_def sort_desc_sorted sort_desc_stable set_sort_desc)

theorem donors_receivers_classified_sorted_witness:
  "classify ''hot'' 2 ex_c [''S1'', ''S2''] = Inr ([(''S1'', 1)], [(''S2'', 1)])"
proof -
  have h: "set [''S1'', ''S2''] \<subseteq> fst ` set (stc \<lparr>stc = ex_c, str_regions = ex_g\<rparr>)"
    by (simp add: ex_c_def)
  have f: "float_sub (py_float 3) 2 = 1" "float_sub 2 (py_float 1) = 1" by code_simp+
  from donors_receivers_classified_sorted[OF h, of "''hot''" 2]
  show ?thesis by (simp add: ex_c_def count_of_def dict_get_def f)
qed

text \<open>\<^bold>\<open>C5\<close> (idempotence of balance). If the hot table's count on every server equals
  the hot table's global average, \<open>compute_balance_plan\<close> returns the empty list.\<close>

theorem balanced_plan_empty:
  assumes "hot_balanced hot c"
  shows "compute_balance_plan hot c g = Inr []"
proof (cases "c = []")
  case True
  then show ?thesis by (simp add: compute_balance_plan_def)
next
  case False
  let ?st = "\<lparr>stc = c, str_regions = g\<rparr>"
  from False have a: "avg_get (table_avg c) hot = compute_table_avg hot c"
    by (rule avg_get_table_avg)
  have "plan_step hot (table_avg c) (avg_get (table_avg c) hot) (map fst (stc ?st)) ?st = Inr None"
    by (rule plan_step_balanced) (use assms a in \<open>simp add: hot_balanced_def\<close>)
  then have "plan_loop k hot (table_avg c) (avg_get (table_avg c) hot) (map fst c) ?st [] = Inr ([], ?st)" for k
    by (cases k) simp_all
  then show ?thesis by (simp add: compute_balance_plan_def plan_run_def)
qed

theorem balanced_plan_empty_witness:
  "hot_balanced ''hot'' ex_balanced \<and> compute_balance_plan ''hot'' ex_balanced [] = Inr []"
proof -
  have h: "hot_balanced ''hot'' ex_balanced" by code_simp
  from h balanced_plan_empty[OF h] show ?thesis by blast
qed

text \<open>\<^bold>\<open>C6\<close> (termination). On every snapshot whose counts agree with its region lists
  (every snapshot that \<open>analyze_distribution\<close> builds is one), \<open>compute_balance_plan\<close>
  returns a list and raises nothing. The list is the sequence of the swaps that the
  successive iterations record, starting from the snapshot. It has at most 1000 swaps,
  and when it has fewer the loop has ended at an iteration that found no swap: a loop
  that ends at the cap returns all 1000 swaps it has accumulated. The same holds of the
  loop cut off after any number \<open>n\<close> of iterations.\<close>

theorem planner_returns_recorded_swaps:
  assumes "snapshot_ok c g"
  shows "(\<exists>swap_plan st.
            compute_balance_plan hot c g = Inr swap_plan
          \<and> recorded hot (table_avg c) (avg_get (table_avg c) hot) (map fst c)
              \<lparr>stc = c, str_regions = g\<rparr> swap_plan = Some st
          \<and> length swap_plan \<le> 1000
          \<and> (length swap_plan = 1000
              \<or> plan_step hot (table_avg c) (avg_get (table_avg c) hot) (map fst c) st = Inr None))
       \<and> (\<forall>n. \<exists>swap_plan st.
            plan_run n hot c g = Inr (swap_plan, st)
          \<and> recorded hot (table_avg c) (avg_get (table_avg c) hot) (map fst c)
              \<lparr>stc = c, str_regions = g\<rparr> swap_plan = Some st
          \<and> length swap_plan \<le> n
          \<and> (length swap_plan = n
              \<or> plan_step hot (table_avg c) (avg_get (table_avg c) hot) (map fst c) st = Inr None))
       \<and> snapshot_ok (server_table_count (analyze_distribution lines))
                     (server_table_regions (analyze_distribution lines))"
proof -
  let ?st = "\<lparr>stc = c, str_regions = g\<rparr>"
  from assms have ok: "wstate_ok ?st"
    by (simp add: wstate_ok_def snapshot_ok_def)
  have run: "\<exists>swap_plan st.
            plan_run n hot c g = Inr (swap_plan, st)
          \<and> recorded hot (table_avg c) (avg_get (table_avg c) hot) (map fst c) ?st swap_plan = Some st
          \<and> length swap_plan \<le> n
          \<and> (length swap_plan = n
              \<or> plan_step hot (table_avg c) (avg_get (table_avg c) hot) (map fst c) st = Inr None)" for n
    using plan_loop_recorded[OF ok, of "map fst c" n hot "table_avg c" "avg_get (table_avg c) hot" "[]"]
    by (simp add: plan_run_def)
  from run[of 1000] obtain swap_plan st where
    r: "plan_run 1000 hot c g = Inr (swap_plan, st)"
    and rest: "recorded hot (table_avg c) (avg_get (table_avg c) hot) (map fst c) ?st swap_plan = Some st"
      "length swap_plan \<le> 1000"
      "length swap_plan = 1000
         \<or> plan_step hot (table_avg c) (avg_get (table_avg c) hot) (map fst c) st = Inr None"
    by blast
  have "compute_balance_plan hot c g = Inr swap_plan"
  proof (cases "map fst c = []")
    case True
    then have "plan_step hot (table_avg c) (avg_get (table_avg c) hot) (map fst c) ?st = Inr None"
      by (simp add: plan_step_def sort_desc_def)
    then have "plan_run 1000 hot c g = Inr ([], ?st)"
      by (simp add: plan_run_def numeral_eq_Suc)
    with r True show ?thesis by (simp add: compute_balance_plan_def)
  next
    case False
    with r show ?thesis by (simp add: compute_balance_plan_def max_iterations_def)
  qed
  with rest run analyze_distribution_ok[of lines] show ?thesis by blast
qed

theorem planner_returns_recorded_swaps_witness:
  "snapshot_ok osc_c osc_g
   \<and> (\<exists>swap_plan st.
        compute_balance_plan ''hot'' osc_c osc_g = Inr swap_plan
      \<and> recorded ''hot'' (table_avg osc_c) (avg_get (table_avg osc_c) ''hot'') (map fst osc_c)
          \<lparr>stc = osc_c, str_regions = osc_g\<rparr> swap_plan = Some st
      \<and> length swap_plan = 1000
      \<and> hd swap_plan = (''h1'', ''c2'', ''cold'', ''S1'', ''S2''))
   \<and> compute_balance_plan ''hot'' ex_c ex_g = Inr [(''h1'', ''c2'', ''cold'', ''S1'', ''S2'')]"
proof -
  have h: "snapshot_ok osc_c osc_g" by code_simp
  from osc_run obtain plan st' where
    run: "plan_run max_iterations ''hot'' osc_c osc_g = Inr (plan, st')"
    and len: "length plan = 1000" and hd: "hd plan = (''h1'', ''c2'', ''cold'', ''S1'', ''S2'')"
    by blast
  from run have cp: "compute_balance_plan ''hot'' osc_c osc_g = Inr plan"
    by (simp add: compute_balance_plan_def osc_c_def)
  from planner_returns_recorded_swaps[OF h, of "''hot''"] obtain swap_plan st where
    "compute_balance_plan ''hot'' osc_c osc_g = Inr swap_plan"
    "recorded ''hot'' (table_avg osc_c) (avg_get (table_avg osc_c) ''hot'') (map fst osc_c)
       \<lparr>stc = osc_c, str_regions = osc_g\<rparr> swap_plan = Some st"
    by blast
  with cp len hd have 1: "\<exists>swap_plan st.
        compute_balance_plan ''hot'' osc_c osc_g = Inr swap_plan
      \<and> recorded ''hot'' (table_avg osc_c) (avg_get (table_avg osc_c) ''hot'') (map fst osc_c)
          \<lparr>stc = osc_c, str_regions = osc_g\<rparr> swap_plan = Some st
      \<and> length swap_plan = 1000
      \<and> hd swap_plan = (''h1'', ''c2'', ''cold'', ''S1'', ''S2'')"
    by auto
  have 2: "compute_balance_plan ''hot'' ex_c ex_g = Inr [(''h1'', ''c2'', ''cold'', ''S1'', ''S2'')]"
    by code_simp
  from h 1 2 show ?thesis by simp
qed




text \<open>\<^bold>\<open>C8\<close> (the snapshot is not mutated). In the store model, after
  \<open>compute_balance_plan\<close> has run, whether it returned a plan or raised, every object
  that existed before the call is unchanged; so the counts and the region lists read
  through the caller's two outer dicts are what they were before the call. The planner
  writes only to the objects of its deep copy.\<close>

theorem planner_leaves_snapshot_unchanged:
  assumes "fst (view_counts sc h) = Inr c" "fst (view_regions sr h) = Inr g"
  shows "fst (view_counts sc (snd (heap_compute_balance_plan hot sc sr h))) = Inr c
       \<and> fst (view_regions sr (snd (heap_compute_balance_plan hot sc sr h))) = Inr g
       \<and> (\<forall>a < length h. snd (heap_compute_balance_plan hot sc sr h) ! a = h ! a)"
proof -
  let ?h' = "snd (heap_compute_balance_plan hot sc sr h)"
  have ext: "extends h ?h'"
    by (simp add: extends_def compute_same_below compute_length)
  obtain h1 where 1: "view_counts sc h = (Inr c, h1)"
    using assms(1) by (cases "view_counts sc h") simp
  obtain h2 where 2: "view_regions sr h = (Inr g, h2)"
    using assms(2) by (cases "view_regions sr h") simp
  from view_counts_extends[OF 1 ext] view_regions_extends[OF 2 ext] ext
  show ?thesis by (simp add: extends_def same_below_def)
qed

theorem planner_leaves_snapshot_unchanged_witness:
  "fst (view_counts ex_sc (snd (heap_compute_balance_plan ''hot'' ex_sc ex_sr ex_heap))) = Inr ex_c
   \<and> fst (view_regions ex_sr (snd (heap_compute_balance_plan ''hot'' ex_sc ex_sr ex_heap))) = Inr ex_g
   \<and> fst (heap_compute_balance_plan ''hot'' ex_sc ex_sr ex_heap) = Inr [(''h1'', ''c2'', ''cold'', ''S1'', ''S2'')]"
proof -
  have 1: "fst (view_counts ex_sc ex_heap) = Inr ex_c" by code_simp
  have 2: "fst (view_regions ex_sr ex_heap) = Inr ex_g" by code_simp
  have 3: "fst (heap_compute_balance_plan ''hot'' ex_sc ex_sr ex_heap) = Inr [(''h1'', ''c2'', ''cold'', ''S1'', ''S2'')]"
    by code_simp
  from planner_leaves_snapshot_unchanged[OF 1 2, of "''hot''"] 3 show ?thesis by simp
qed

text \<open>\<^bold>\<open>C9\<close> (exporter). For the swap at position \<open>i\<close> of the plan, the file holds,
  after the four header strings and the earlier four-string blocks, the directive that
  moves the hot region to the receiver and the directive that moves the cold region to
  the donor. Each names the full identity of the server when the mapping has its host,
  and the host itself when it has not; nothing fails.\<close>

theorem exporter_resolves_endpoints:
  assumes "i < length swap_plan"
    and "swap_plan ! i = (hot_region, cold_region, cold_table, source, target)"
  shows "generate_plan swap_plan hot_table fullname ! (4 + 4 * i + 1) =
           ''move '' @ [CHR 0x27] @ hot_region @ [CHR 0x27] @ '', '' @ [CHR 0x27]
             @ (case map_of fullname target of Some full \<Rightarrow> full | None \<Rightarrow> target)
             @ [CHR 0x27] @ nl
       \<and> generate_plan swap_plan hot_table fullname ! (4 + 4 * i + 2) =
           ''move '' @ [CHR 0x27] @ cold_region @ [CHR 0x27] @ '', '' @ [CHR 0x27]
             @ (case map_of fullname source of Some full \<Rightarrow> full | None \<Rightarrow> source)
             @ [CHR 0x27] @ nl
       \<and> length (generate_plan swap_plan hot_table fullname) = 4 + 4 * length swap_plan + 1"
proof -
  let ?f = "\<lambda>(i, sw). pair_block hot_table fullname i sw"
  let ?xs = "zip [1 ..< Suc (length swap_plan)] swap_plan"
  let ?body = "concat (map ?f ?xs)"
  have len4: "\<And>x. x \<in> set ?xs \<Longrightarrow> length (?f x) = 4"
    by (auto simp: length_pair_block)
  have lx: "length ?xs = length swap_plan" by (simp del: upt_Suc)
  have xi: "?xs ! i = (Suc i, swap_plan ! i)"
    using assms(1) by (simp del: upt_Suc)
  have blk: "?body ! (4 * i + j) = pair_block hot_table fullname (Suc i) (swap_plan ! i) ! j"
    if "j < 4" for j
    using nth_concat_blocks[of ?xs ?f 4 i j, OF len4] assms(1) that xi by (simp del: upt_Suc)
  have lb: "length ?body = 4 * length swap_plan"
    using length_concat_blocks[of ?xs ?f 4, OF len4] by (simp del: upt_Suc)
  have gp: "generate_plan swap_plan hot_table fullname ! (4 + k) = ?body ! k"
    if "k < length ?body" for k
    using that unfolding generate_plan_def by (simp add: nth_append del: upt_Suc)
  have k1: "4 * i + 1 < length ?body" and k2: "4 * i + 2 < length ?body"
    using assms(1) lb by simp_all
  have "generate_plan swap_plan hot_table fullname ! (4 + (4 * i + 1)) = ?body ! (4 * i + 1)"
    by (rule gp[OF k1])
  moreover have "generate_plan swap_plan hot_table fullname ! (4 + (4 * i + 2)) = ?body ! (4 * i + 2)"
    by (rule gp[OF k2])
  moreover have "length (generate_plan swap_plan hot_table fullname) = 4 + 4 * length swap_plan + 1"
    unfolding generate_plan_def using lb by (simp del: upt_Suc)
  ultimately show ?thesis
    using blk[of 1] blk[of 2] assms(2)
    by (simp add: pair_block_def Let_def dict_get_def add.assoc)
qed

theorem exporter_resolves_endpoints_witness:
  "generate_plan [(''h1'', ''c2'', ''cold'', ''S1'', ''S2'')] ''hot'' [(''S2'', ''S2,16020,18'')] ! 5 =
      ''move '' @ [CHR 0x27] @ ''h1'' @ [CHR 0x27] @ '', '' @ [CHR 0x27] @ ''S2,16020,18'' @ [CHR 0x27] @ nl
   \<and> generate_plan [(''h1'', ''c2'', ''cold'', ''S1'', ''S2'')] ''hot'' [(''S2'', ''S2,16020,18'')] ! 6 =
      ''move '' @ [CHR 0x27] @ ''c2'' @ [CHR 0x27] @ '', '' @ [CHR 0x27] @ ''S1'' @ [CHR 0x27] @ nl"
  using exporter_resolves_endpoints[of 0 "[(''h1'', ''c2'', ''cold'', ''S1'', ''S2'')]"
      "''h1''" "''c2''" "''cold''" "''S1''" "''S2''" "''hot''" "[(''S2'', ''S2,16020,18'')]"]
  by simp

text \<open>\<^bold>\<open>C10\<close> (working copy consistency). If the counts and the region lists agree in the
  input snapshot, then after any number \<open>n\<close> of planner iterations the working copy
  still has, for every server and table, a count equal to the length of the region list,
  and therefore no negative count. (\<open>plan_run n\<close> is the planner stopped after at most
  \<open>n\<close> iterations, so its final state ranges over every state the loop passes through.)\<close>

theorem working_copy_consistent:
  assumes "snapshot_ok c g"
  shows "\<exists>plan st. plan_run n hot c g = Inr (plan, st) \<and>
           (\<forall>s t. count_of (stc st) s t = int (length (regions_of (str_regions st) s t))
                  \<and> 0 \<le> count_of (stc st) s t)"
proof -
  from assms have "wstate_ok \<lparr>stc = c, str_regions = g\<rparr>"
    by (simp add: wstate_ok_def snapshot_ok_def)
  from plan_loop_ok[OF this, of "map fst c" n hot "table_avg c" "avg_get (table_avg c) hot" "[]"]
  obtain plan st where r: "plan_run n hot c g = Inr (plan, st)" and ok: "wstate_ok st"
    by (auto simp: plan_run_def)
  from ok have "\<forall>s t. count_of (stc st) s t = int (length (regions_of (str_regions st) s t))"
    by (simp add: wstate_ok_def consistent_iff)
  with r show ?thesis by simp
qed

theorem working_copy_consistent_witness:
  "snapshot_ok ex_c ex_g \<and> (\<exists>plan st. plan_run 1 ''hot'' ex_c ex_g = Inr (plan, st) \<and>
           (\<forall>s t. count_of (stc st) s t = int (length (regions_of (str_regions st) s t))
                  \<and> 0 \<le> count_of (stc st) s t))"
proof -
  have h: "snapshot_ok ex_c ex_g" by code_simp
  from h working_copy_consistent[OF h] show ?thesis by blast
qed

end
